theory Spec2Isabelle
  imports
    Main
    "HOL-Library.Multiset"
    "HOL-Library.Char_ord"
    "HOL-Library.List_Lexorder"
begin

section \<open>The offline operation queue of the CRM front end\<close>

text \<open>
  The development embeds two source files: the IndexedDB module
  (\<^verbatim>\<open>@/lib/offline-queue\<close>: \<^verbatim>\<open>addToQueue\<close>, \<^verbatim>\<open>removeFromQueue\<close>,
  \<^verbatim>\<open>getQueuedOperations\<close>, \<^verbatim>\<open>getQueueCount\<close>, \<^verbatim>\<open>cacheLeads\<close>, \<^verbatim>\<open>getCachedLeads\<close>,
  \<^verbatim>\<open>updateCachedLead\<close>, \<^verbatim>\<open>deleteCachedLead\<close>) and the React hook
  \<^verbatim>\<open>useOfflineQueue\<close> (\<^verbatim>\<open>syncQueue\<close>, \<^verbatim>\<open>processOperation\<close>, \<^verbatim>\<open>queueInsert\<close>,
  \<^verbatim>\<open>queueUpdate\<close>, \<^verbatim>\<open>queueDelete\<close>, \<^verbatim>\<open>updateQueueCount\<close>).

  Every \<^verbatim>\<open>await\<close> of the source is a sequencing point: a function is modelled as a state
  transformer that runs its awaited calls one after the other. A rejected promise is an
  error value next to the state the call leaves behind, since a call that fails half-way
  keeps the effects it already had. The values of \<^verbatim>\<open>crypto.randomUUID()\<close> and
  \<^verbatim>\<open>Date.now()\<close> are inputs of the functions that read them.
\<close>

subsection \<open>JavaScript values and objects\<close>

text \<open>
  The payloads are typed \<^verbatim>\<open>any\<close> in the source. They are modelled as objects with
  string-named properties in insertion order; a property that is absent reads as
  \<^verbatim>\<open>undefined\<close>, here \<open>None\<close>.
\<close>

datatype jsval = JNull | JNum int | JStr string

type_synonym jsobj = "(string \<times> jsval) list"

definition obj_get :: "jsobj \<Rightarrow> string \<Rightarrow> jsval option" where
  "obj_get obj k = map_of obj k"

text \<open>\<^verbatim>\<open>{ ...obj, k: v }\<close>: an existing property keeps its place, a new one goes last.\<close>

fun obj_set :: "string \<Rightarrow> jsval \<Rightarrow> jsobj \<Rightarrow> jsobj" where
  "obj_set k v [] = [(k, v)]"
| "obj_set k v (p # ps) = (if fst p = k then (k, v) # ps else p # obj_set k v ps)"

text \<open>\<^verbatim>\<open>const { k: _, ...rest } = obj\<close>: the object without the property.\<close>

definition obj_del :: "string \<Rightarrow> jsobj \<Rightarrow> jsobj" where
  "obj_del k obj = filter (\<lambda>p. fst p \<noteq> k) obj"

subsection \<open>An IndexedDB object store with in-line keys\<close>

text \<open>
  Both stores are created with \<^verbatim>\<open>{ keyPath: 'id' }\<close> and no key generator. A record's
  key is the value of its \<^verbatim>\<open>id\<close> property, which must be a valid key (a number or a
  string; \<^verbatim>\<open>undefined\<close> and \<^verbatim>\<open>null\<close> are not). Numbers sort before
  strings. A store holds at most one record per key and \<^verbatim>\<open>getAll\<close> returns the records
  in key order, so a store is a list of keyed records kept in that order.

  \<^item> \<^verbatim>\<open>add\<close> fails with \<^verbatim>\<open>ConstraintError\<close> when the key is taken;
  \<^item> \<^verbatim>\<open>put\<close> overwrites;
  \<^item> \<^verbatim>\<open>delete\<close> of an absent key succeeds and changes nothing;
  \<^item> \<^verbatim>\<open>add\<close> and \<^verbatim>\<open>put\<close> throw \<^verbatim>\<open>DataError\<close> at the call, before any
    request is placed, when the record has no valid key.
\<close>

datatype idb_key = KNum int | KStr string

fun key_of_val :: "jsval option \<Rightarrow> idb_key option" where
  "key_of_val None = None"
| "key_of_val (Some JNull) = None"
| "key_of_val (Some (JNum n)) = Some (KNum n)"
| "key_of_val (Some (JStr s)) = Some (KStr s)"

fun key_less :: "idb_key \<Rightarrow> idb_key \<Rightarrow> bool" where
  "key_less (KNum a) (KNum b) = (a < b)"
| "key_less (KNum a) (KStr b) = True"
| "key_less (KStr a) (KNum b) = False"
| "key_less (KStr a) (KStr b) = (a < b)"

type_synonym 'a object_store = "(idb_key \<times> 'a) list"

fun store_insert :: "idb_key \<Rightarrow> 'a \<Rightarrow> 'a object_store \<Rightarrow> 'a object_store" where
  "store_insert k v [] = [(k, v)]"
| "store_insert k v (p # ps) =
     (if key_less k (fst p) then (k, v) # p # ps else p # store_insert k v ps)"

definition store_has :: "idb_key \<Rightarrow> 'a object_store \<Rightarrow> bool" where
  "store_has k st = (k \<in> set (map fst st))"

definition store_delete :: "idb_key \<Rightarrow> 'a object_store \<Rightarrow> 'a object_store" where
  "store_delete k st = filter (\<lambda>p. fst p \<noteq> k) st"

text \<open>\<open>None\<close> is the \<^verbatim>\<open>ConstraintError\<close> of the request.\<close>

definition store_add :: "idb_key \<Rightarrow> 'a \<Rightarrow> 'a object_store \<Rightarrow> 'a object_store option" where
  "store_add k v st = (if store_has k st then None else Some (store_insert k v st))"

definition store_put :: "idb_key \<Rightarrow> 'a \<Rightarrow> 'a object_store \<Rightarrow> 'a object_store" where
  "store_put k v st = store_insert k v (store_delete k st)"

definition store_getAll :: "'a object_store \<Rightarrow> 'a list" where
  "store_getAll st = map snd st"

definition store_count :: "'a object_store \<Rightarrow> nat" where
  "store_count st = length st"

subsection \<open>Data model\<close>

datatype op_type = Insert | Update | Delete

text \<open>
  \<^verbatim>\<open>interface QueuedOperation { id; type; table; data; timestamp }\<close>. The fields
  carry the prefix \<open>op_\<close> where the source's name is taken in HOL.
\<close>

record QueuedOperation =
  op_id :: string
  op_type :: op_type
  op_table :: string
  op_data :: jsobj
  timestamp :: int

text \<open>
  The requests the remote service can receive from \<^verbatim>\<open>processOperation\<close>:
  \<^verbatim>\<open>insert([insertData])\<close>, \<^verbatim>\<open>update(updateData).eq('id', updateId)\<close> and
  \<^verbatim>\<open>delete().eq('id', op.data.id)\<close>, all on the table \<^verbatim>\<open>leads\<close>.
\<close>

datatype remote_call =
    RemoteInsert jsobj
  | RemoteUpdate "jsval option" jsobj
  | RemoteDelete "jsval option"

text \<open>
  The remote service is a parameter: given the requests it has received so far and the
  next request, it says whether its response carries an error.
\<close>

type_synonym remote = "remote_call list \<Rightarrow> remote_call \<Rightarrow> bool"

datatype error =
    ConstraintError
  | DataError
  | TransactionError
  | UnsupportedTable string
  | RemoteRejected

record toast =
  title :: string
  description :: string
  destructive :: bool

datatype console_entry = FailedToSyncOperation QueuedOperation error

text \<open>
  The state as the functions of one mounted \<^verbatim>\<open>useOfflineQueue()\<close> see it: the two
  object stores of the database, the two \<^verbatim>\<open>useState\<close> cells of that instance of the
  hook, the toasts and console lines produced so far, and the requests the remote service
  has received so far. The database is taken as open (\<^verbatim>\<open>initDB\<close> has resolved).

  The cells belong to the instance, everything else is shared: the program mounts the hook
  in \<^verbatim>\<open>SyncIndicator\<close>, \<^verbatim>\<open>LeadFormDialog\<close> and \<^verbatim>\<open>LeadsTable\<close>, each with its
  own \<^verbatim>\<open>queueCount\<close> and \<^verbatim>\<open>isSyncing\<close>. The program with several instances is
  the type \<open>app\<close> below.
\<close>

record state =
  queue :: "QueuedOperation object_store"
  leads_cache :: "jsobj object_store"
  queueCount :: nat
  isSyncing :: bool
  toasts :: "toast list"
  console :: "console_entry list"
  calls :: "remote_call list"

type_synonym 'a result = "(error + 'a) \<times> state"

definition init_state :: state where
  "init_state = \<lparr>queue = [], leads_cache = [], queueCount = 0, isSyncing = False,
     toasts = [], console = [], calls = []\<rparr>"

subsection \<open>The storage module\<close>

text \<open>
  \<^verbatim>\<open>addToQueue\<close>: one \<^verbatim>\<open>add\<close> in its own transaction. The request's error is not
  handled with \<^verbatim>\<open>preventDefault\<close>, so the transaction aborts and the store is as before.
\<close>

definition addToQueue ::
  "string \<Rightarrow> int \<Rightarrow> op_type \<Rightarrow> string \<Rightarrow> jsobj \<Rightarrow> state \<Rightarrow> string result" where
  "addToQueue uuid now ty tbl d s =
     (let queuedOp = \<lparr>op_id = uuid, op_type = ty, op_table = tbl, op_data = d,
                      timestamp = now\<rparr>
      in case store_add (KStr uuid) queuedOp (queue s) of
           None \<Rightarrow> (Inl ConstraintError, s)
         | Some q \<Rightarrow> (Inr uuid, s\<lparr>queue := q\<rparr>))"

definition removeFromQueue :: "string \<Rightarrow> state \<Rightarrow> state" where
  "removeFromQueue i s = s\<lparr>queue := store_delete (KStr i) (queue s)\<rparr>"

text \<open>
  \<^verbatim>\<open>operations.sort((a, b) => a.timestamp - b.timestamp)\<close> on the result of
  \<^verbatim>\<open>getAll\<close>: a stable sort by timestamp of the records in key order.
\<close>

definition getQueuedOperations :: "state \<Rightarrow> QueuedOperation list" where
  "getQueuedOperations s = sort_key timestamp (store_getAll (queue s))"

definition getQueueCount :: "state \<Rightarrow> nat" where
  "getQueueCount s = store_count (queue s)"

definition lead_key :: "jsobj \<Rightarrow> idb_key option" where
  "lead_key lead = key_of_val (obj_get lead ''id'')"

text \<open>
  The \<^verbatim>\<open>add\<close> requests of one transaction, run in the order they were placed;
  \<open>None\<close> when one of them fails.
\<close>

fun run_adds :: "jsobj list \<Rightarrow> jsobj object_store \<Rightarrow> jsobj object_store option" where
  "run_adds [] st = Some st"
| "run_adds (lead # leads) st =
     (case lead_key lead of
        None \<Rightarrow> None
      | Some k \<Rightarrow> (case store_add k lead st of
                     None \<Rightarrow> None
                   | Some st' \<Rightarrow> run_adds leads st'))"

text \<open>
  \<^verbatim>\<open>cacheLeads\<close>: \<^verbatim>\<open>clear\<close> and one \<^verbatim>\<open>add\<close> per lead are placed on one
  transaction from inside the promise's executor.

  \<^item> A lead without a valid key makes \<^verbatim>\<open>store.add\<close> throw \<^verbatim>\<open>DataError\<close> inside
    \<^verbatim>\<open>forEach\<close>: the executor stops there and the promise is rejected, but the requests
    already placed stay on the transaction, which is not aborted by an exception thrown
    outside its event handlers.
  \<^item> The requests placed then run. If an \<^verbatim>\<open>add\<close> finds its key taken, its error event
    aborts the transaction, every change of the transaction is undone, and
    \<^verbatim>\<open>transaction.onerror\<close> rejects the promise. Otherwise the transaction commits.
\<close>

definition cacheLeads :: "jsobj list \<Rightarrow> state \<Rightarrow> unit result" where
  "cacheLeads leads s =
     (let placed = takeWhile (\<lambda>lead. lead_key lead \<noteq> None) leads;
          thrown = (length placed < length leads)
      in case run_adds placed [] of
           None \<Rightarrow> (Inl (if thrown then DataError else TransactionError), s)
         | Some c \<Rightarrow> (if thrown then Inl DataError else Inr (), s\<lparr>leads_cache := c\<rparr>))"

definition getCachedLeads :: "state \<Rightarrow> jsobj list" where
  "getCachedLeads s = store_getAll (leads_cache s)"

definition updateCachedLead :: "jsobj \<Rightarrow> state \<Rightarrow> unit result" where
  "updateCachedLead lead s =
     (case lead_key lead of
        None \<Rightarrow> (Inl DataError, s)
      | Some k \<Rightarrow> (Inr (), s\<lparr>leads_cache := store_put k lead (leads_cache s)\<rparr>))"

definition deleteCachedLead :: "string \<Rightarrow> state \<Rightarrow> state" where
  "deleteCachedLead i s = s\<lparr>leads_cache := store_delete (KStr i) (leads_cache s)\<rparr>"

subsection \<open>The hook\<close>

definition updateQueueCount :: "state \<Rightarrow> state" where
  "updateQueueCount s = s\<lparr>queueCount := getQueueCount s\<rparr>"

definition add_toast :: "toast \<Rightarrow> state \<Rightarrow> state" where
  "add_toast t s = s\<lparr>toasts := toasts s @ [t]\<rparr>"

text \<open>The request \<^verbatim>\<open>processOperation\<close> sends for an operation on \<^verbatim>\<open>leads\<close>.\<close>

definition call_of :: "QueuedOperation \<Rightarrow> remote_call" where
  "call_of op =
     (case op_type op of
        Insert \<Rightarrow> RemoteInsert (obj_del ''id'' (op_data op))
      | Update \<Rightarrow> RemoteUpdate (obj_get (op_data op) ''id'') (obj_del ''id'' (op_data op))
      | Delete \<Rightarrow> RemoteDelete (obj_get (op_data op) ''id''))"

definition processOperation :: "remote \<Rightarrow> QueuedOperation \<Rightarrow> state \<Rightarrow> unit result" where
  "processOperation rem op s =
     (if op_table op \<noteq> ''leads'' then (Inl (UnsupportedTable (op_table op)), s)
      else let c = call_of op; s' = s\<lparr>calls := calls s @ [c]\<rparr>
           in if rem (calls s) c then (Inl RemoteRejected, s') else (Inr (), s'))"

text \<open>The two counters of \<^verbatim>\<open>syncQueue\<close>.\<close>

record tally =
  successCount :: nat
  failCount :: nat

text \<open>One iteration of \<^verbatim>\<open>for (const op of operations)\<close>, with its \<^verbatim>\<open>try\<close>/\<^verbatim>\<open>catch\<close>.\<close>

definition sync_step :: "remote \<Rightarrow> QueuedOperation \<Rightarrow> tally \<times> state \<Rightarrow> tally \<times> state" where
  "sync_step rem op ts =
     (case processOperation rem op (snd ts) of
        (Inr u, s') \<Rightarrow>
          ((fst ts)\<lparr>successCount := successCount (fst ts) + 1\<rparr>, removeFromQueue (op_id op) s')
      | (Inl e, s') \<Rightarrow>
          ((fst ts)\<lparr>failCount := failCount (fst ts) + 1\<rparr>,
           s'\<lparr>console := console s' @ [FailedToSyncOperation op e]\<rparr>))"

definition sync_loop :: "remote \<Rightarrow> QueuedOperation list \<Rightarrow> tally \<times> state \<Rightarrow> tally \<times> state" where
  "sync_loop rem ops ts = fold (sync_step rem) ops ts"

text \<open>Decimal digits of a number, as a template literal prints them.\<close>

definition digit_char :: "nat \<Rightarrow> char" where
  "digit_char n = ''0123456789'' ! n"

fun string_of_nat :: "nat \<Rightarrow> string" where
  "string_of_nat n =
     (if n < 10 then [digit_char n] else string_of_nat (n div 10) @ [digit_char (n mod 10)])"

definition sync_complete :: "tally \<Rightarrow> toast" where
  "sync_complete t =
     \<lparr>title = ''Sync Complete'',
      description = ''Successfully synced '' @ string_of_nat (successCount t) @ '' change''
        @ (if successCount t > 1 then ''s'' else [])
        @ (if failCount t > 0 then '', '' @ string_of_nat (failCount t) @ '' failed'' else []),
      destructive = False\<rparr>"

text \<open>
  \<^verbatim>\<open>syncQueue\<close> in three parts: the start of the \<^verbatim>\<open>try\<close> block up to the end of the
  loop (\<open>sync_pass\<close>), what follows the loop (\<open>sync_finish\<close>), and the guard around both.
  The promise of \<^verbatim>\<open>syncQueue\<close> resolves to no value on every path; what a pass found is
  in its two counters, which \<open>sync_pass\<close> returns next to the state.

  In the model reading the log, counting it and deleting from it do not fail, so the outer
  \<^verbatim>\<open>catch\<close> (the toast \<^verbatim>\<open>Sync Failed\<close>) has no path leading to it.
\<close>

definition sync_pass :: "remote \<Rightarrow> state \<Rightarrow> tally \<times> state" where
  "sync_pass rem s =
     sync_loop rem (getQueuedOperations s) (\<lparr>successCount = 0, failCount = 0\<rparr>, s)"

definition sync_finish :: "tally \<times> state \<Rightarrow> state" where
  "sync_finish ts =
     (let s1 = updateQueueCount (snd ts);
          s2 = (if successCount (fst ts) > 0 then add_toast (sync_complete (fst ts)) s1 else s1)
      in s2\<lparr>isSyncing := False\<rparr>)"

text \<open>
  Every render of the hook creates \<^verbatim>\<open>syncQueue\<close> anew, and the guard
  \<^verbatim>\<open>if (isSyncing) return\<close> reads the constant of the render that created the
  function, not the cell. \<open>syncQueue_render captured\<close> is the function of a render in which
  \<^verbatim>\<open>isSyncing\<close> was \<open>captured\<close>; \<^verbatim>\<open>setIsSyncing\<close> writes the cell of the instance.
  \<open>syncQueue\<close> is the function of the instance's latest render, the one that shows the
  current value of the cell.
\<close>

definition syncQueue_render :: "bool \<Rightarrow> remote \<Rightarrow> state \<Rightarrow> state" where
  "syncQueue_render captured rem s =
     (if captured then s else sync_finish (sync_pass rem (s\<lparr>isSyncing := True\<rparr>)))"

definition syncQueue :: "remote \<Rightarrow> state \<Rightarrow> state" where
  "syncQueue rem s = syncQueue_render (isSyncing s) rem s"

definition saved_offline :: toast where
  "saved_offline =
     \<lparr>title = ''Saved Offline'',
      description = ''Changes will sync when you'' @ [CHR 0x27] @ ''re back online.'',
      destructive = False\<rparr>"

definition deleted_offline :: toast where
  "deleted_offline =
     \<lparr>title = ''Deleted Offline'',
      description = ''Changes will sync when you'' @ [CHR 0x27] @ ''re back online.'',
      destructive = False\<rparr>"

text \<open>
  \<^verbatim>\<open>queueInsert\<close> reads \<^verbatim>\<open>crypto.randomUUID()\<close> twice, first for the temporary
  identifier (\<open>uuid1\<close>), then inside \<^verbatim>\<open>addToQueue\<close> (\<open>uuid2\<close>).
\<close>

definition queueInsert ::
  "string \<Rightarrow> string \<Rightarrow> int \<Rightarrow> string \<Rightarrow> jsobj \<Rightarrow> state \<Rightarrow> string result" where
  "queueInsert uuid1 uuid2 now tbl d s =
     (let tempId = ''temp_'' @ uuid1;
          dataWithId = obj_set ''id'' (JStr tempId) d
      in case addToQueue uuid2 now Insert tbl d s of
           (Inl e, s1) \<Rightarrow> (Inl e, s1)
         | (Inr i, s1) \<Rightarrow>
             (case updateCachedLead dataWithId s1 of
                (Inl e, s2) \<Rightarrow> (Inl e, s2)
              | (Inr u, s2) \<Rightarrow> (Inr tempId, add_toast saved_offline (updateQueueCount s2))))"

definition queueUpdate :: "string \<Rightarrow> int \<Rightarrow> string \<Rightarrow> jsobj \<Rightarrow> state \<Rightarrow> unit result" where
  "queueUpdate uuid now tbl d s =
     (case addToQueue uuid now Update tbl d s of
        (Inl e, s1) \<Rightarrow> (Inl e, s1)
      | (Inr i, s1) \<Rightarrow>
          (case updateCachedLead d s1 of
             (Inl e, s2) \<Rightarrow> (Inl e, s2)
           | (Inr u, s2) \<Rightarrow> (Inr (), add_toast saved_offline (updateQueueCount s2))))"

definition queueDelete :: "string \<Rightarrow> int \<Rightarrow> string \<Rightarrow> string \<Rightarrow> state \<Rightarrow> unit result" where
  "queueDelete uuid now tbl i s =
     (case addToQueue uuid now Delete tbl [(''id'', JStr i)] s of
        (Inl e, s1) \<Rightarrow> (Inl e, s1)
      | (Inr j, s1) \<Rightarrow>
          (Inr (), add_toast deleted_offline (updateQueueCount (deleteCachedLead i s1))))"


subsection \<open>Notions used to state the properties\<close>

text \<open>
  What \<^verbatim>\<open>processOperation\<close> does with an operation, read off its definition: the
  operation succeeds when it targets \<^verbatim>\<open>leads\<close> and the remote service, having received
  the requests \<open>h\<close>, answers its request without an error; \<open>sent h op\<close> is what the
  remote service has received afterwards.
\<close>

definition succeeds :: "remote \<Rightarrow> remote_call list \<Rightarrow> QueuedOperation \<Rightarrow> bool" where
  "succeeds rem h op = (op_table op = ''leads'' \<and> \<not> rem h (call_of op))"

definition sent :: "remote_call list \<Rightarrow> QueuedOperation \<Rightarrow> remote_call list" where
  "sent h op = (if op_table op = ''leads'' then h @ [call_of op] else h)"

text \<open>
  The invariants of the two stores: keys are unique, and a record is stored under the value
  of its own \<^verbatim>\<open>id\<close>.
\<close>

definition queue_ok :: "state \<Rightarrow> bool" where
  "queue_ok s = (distinct (map fst (queue s))
                 \<and> list_all (\<lambda>p. fst p = KStr (op_id (snd p))) (queue s))"

definition cache_ok :: "state \<Rightarrow> bool" where
  "cache_ok s = (distinct (map fst (leads_cache s))
                 \<and> list_all (\<lambda>p. lead_key (snd p) = Some (fst p)) (leads_cache s))"

text \<open>
  A call of one of the three enqueue functions of the hook, with the values it reads from
  \<^verbatim>\<open>crypto.randomUUID()\<close> and \<^verbatim>\<open>Date.now()\<close>; running a sequence of such calls, each
  from the state the one before left (whether or not it was rejected); and the operation a
  call hands to \<^verbatim>\<open>addToQueue\<close>.
\<close>

datatype enqueue_call =
    QueueInsert string string int string jsobj
  | QueueUpdate string int string jsobj
  | QueueDelete string int string string

fun run_call :: "enqueue_call \<Rightarrow> state \<Rightarrow> state" where
  "run_call (QueueInsert uuid1 uuid2 now tbl d) s = snd (queueInsert uuid1 uuid2 now tbl d s)"
| "run_call (QueueUpdate uuid now tbl d) s = snd (queueUpdate uuid now tbl d s)"
| "run_call (QueueDelete uuid now tbl i) s = snd (queueDelete uuid now tbl i s)"

definition run_calls :: "enqueue_call list \<Rightarrow> state \<Rightarrow> state" where
  "run_calls cs s = fold run_call cs s"

fun logged_op :: "enqueue_call \<Rightarrow> QueuedOperation" where
  "logged_op (QueueInsert uuid1 uuid2 now tbl d) =
     \<lparr>op_id = uuid2, op_type = Insert, op_table = tbl, op_data = d, timestamp = now\<rparr>"
| "logged_op (QueueUpdate uuid now tbl d) =
     \<lparr>op_id = uuid, op_type = Update, op_table = tbl, op_data = d, timestamp = now\<rparr>"
| "logged_op (QueueDelete uuid now tbl i) =
     \<lparr>op_id = uuid, op_type = Delete, op_table = tbl, op_data = [(''id'', JStr i)],
      timestamp = now\<rparr>"

definition keyed :: "QueuedOperation \<Rightarrow> idb_key \<times> QueuedOperation" where
  "keyed op = (KStr (op_id op), op)"

subsection \<open>Several mounted instances of the hook\<close>

text \<open>
  The program: the shared database, notifications and remote service, and one record per
  mounted \<^verbatim>\<open>useOfflineQueue()\<close> with its two cells and, while a call of its
  \<^verbatim>\<open>syncQueue\<close> is in flight, the locals of that call (the two counters and the
  operations of its snapshot not handled yet).
\<close>

record mounted_hook =
  inst_queueCount :: nat
  inst_isSyncing :: bool
  inst_pass :: "(tally \<times> QueuedOperation list) option"

record app =
  app_queue :: "QueuedOperation object_store"
  app_leads_cache :: "jsobj object_store"
  app_toasts :: "toast list"
  app_console :: "console_entry list"
  app_calls :: "remote_call list"
  instances :: "mounted_hook list"

text \<open>The state an instance's functions run on, and the program after they ran.\<close>

definition focus :: "mounted_hook \<Rightarrow> app \<Rightarrow> state" where
  "focus i a =
     \<lparr>queue = app_queue a, leads_cache = app_leads_cache a,
      queueCount = inst_queueCount i, isSyncing = inst_isSyncing i,
      toasts = app_toasts a, console = app_console a, calls = app_calls a\<rparr>"

definition unfocus ::
  "nat \<Rightarrow> state \<Rightarrow> (tally \<times> QueuedOperation list) option \<Rightarrow> app \<Rightarrow> app" where
  "unfocus n s p a =
     \<lparr>app_queue = queue s, app_leads_cache = leads_cache s, app_toasts = toasts s,
      app_console = console s, app_calls = calls s,
      instances = (instances a)
        [n := \<lparr>inst_queueCount = queueCount s, inst_isSyncing = isSyncing s, inst_pass = p\<rparr>]\<rparr>"

text \<open>
  What can happen next in the program, one asynchronous call taking its turn at a time:
  hook \<open>n\<close> calls the \<^verbatim>\<open>syncQueue\<close> of its latest render (the guard, the flag and the
  snapshot of the log); the pass of hook \<open>n\<close> handles the next operation of its snapshot;
  the pass of hook \<open>n\<close>, its snapshot exhausted, runs what follows the loop; hook \<open>n\<close>
  runs one enqueue call. An event that names no mounted hook, or a pass that is not there,
  changes nothing. Every sequence of events is a run the program can make: the calls of
  different hooks interleave at their awaits, of which the boundaries taken here are some.
\<close>

datatype event = StartSync nat | StepSync nat | FinishSync nat | Enqueue nat enqueue_call

fun run_event :: "remote \<Rightarrow> event \<Rightarrow> app \<Rightarrow> app" where
  "run_event rem (StartSync n) a =
     (if n < length (instances a) then
        (let s = focus (instances a ! n) a
         in if isSyncing s then a
            else unfocus n (s\<lparr>isSyncing := True\<rparr>)
                   (Some (\<lparr>successCount = 0, failCount = 0\<rparr>, getQueuedOperations s)) a)
      else a)"
| "run_event rem (StepSync n) a =
     (if n < length (instances a) then
        (case inst_pass (instances a ! n) of
           Some (t, op # ops) \<Rightarrow>
             (let ts = sync_step rem op (t, focus (instances a ! n) a)
              in unfocus n (snd ts) (Some (fst ts, ops)) a)
         | _ \<Rightarrow> a)
      else a)"
| "run_event rem (FinishSync n) a =
     (if n < length (instances a) then
        (case inst_pass (instances a ! n) of
           Some (t, []) \<Rightarrow> unfocus n (sync_finish (t, focus (instances a ! n) a)) None a
         | _ \<Rightarrow> a)
      else a)"
| "run_event rem (Enqueue n c) a =
     (if n < length (instances a) then
        unfocus n (run_call c (focus (instances a ! n) a)) (inst_pass (instances a ! n)) a
      else a)"

definition run_events :: "remote \<Rightarrow> event list \<Rightarrow> app \<Rightarrow> app" where
  "run_events rem es a = fold (run_event rem) es a"

subsection \<open>Concrete leads, operations and states\<close>

definition lead_9 :: jsobj where
  "lead_9 = [(''id'', JStr ''9''), (''client_name'', JStr ''Old'')]"

definition lead_1a :: jsobj where
  "lead_1a = [(''id'', JStr ''1''), (''client_name'', JStr ''Acme'')]"

definition lead_1b :: jsobj where
  "lead_1b = [(''id'', JStr ''1''), (''client_name'', JStr ''Bolt'')]"

definition lead_2 :: jsobj where
  "lead_2 = [(''id'', JStr ''2''), (''client_name'', JStr ''Cato'')]"

definition lead_noid :: jsobj where
  "lead_noid = [(''client_name'', JStr ''Dune'')]"

definition cached_9 :: state where
  "cached_9 = init_state\<lparr>leads_cache := [(KStr ''9'', lead_9)]\<rparr>"

definition op_a :: QueuedOperation where
  "op_a = \<lparr>op_id = ''u1'', op_type = Update, op_table = ''leads'',
           op_data = [(''id'', JStr ''7''), (''client_name'', JStr ''Acme'')], timestamp = 1000\<rparr>"

definition op_b :: QueuedOperation where
  "op_b = \<lparr>op_id = ''u2'', op_type = Delete, op_table = ''leads'',
           op_data = [(''id'', JStr ''7'')], timestamp = 2000\<rparr>"

definition op_c :: QueuedOperation where
  "op_c = \<lparr>op_id = ''u3'', op_type = Insert, op_table = ''leads'',
           op_data = [(''client_name'', JStr ''Bolt'')], timestamp = 3000\<rparr>"

definition two_queued :: state where
  "two_queued =
     init_state\<lparr>queue := [(KStr ''u1'', op_a), (KStr ''u2'', op_b)], queueCount := 2\<rparr>"

definition three_queued :: state where
  "three_queued =
     init_state\<lparr>queue := [(KStr ''u1'', op_a), (KStr ''u2'', op_b), (KStr ''u3'', op_c)],
                 queueCount := 3\<rparr>"

definition busy_state :: state where
  "busy_state = two_queued\<lparr>isSyncing := True\<rparr>"

text \<open>A remote service that accepts every request, and one that rejects the second it gets.\<close>

definition accepts_all :: remote where
  "accepts_all h c = False"

definition rejects_second :: remote where
  "rejects_second h c = (length h = 1)"

definition op_x :: QueuedOperation where
  "op_x = \<lparr>op_id = ''u0'', op_type = Update, op_table = ''contacts'',
           op_data = [(''id'', JStr ''3''), (''name'', JStr ''Eve'')], timestamp = 500\<rparr>"

definition mixed_queued :: state where
  "mixed_queued =
     init_state\<lparr>queue := [(KStr ''u0'', op_x), (KStr ''u2'', op_b)], queueCount := 2\<rparr>"

text \<open>
  Two mounted instances (say \<^verbatim>\<open>SyncIndicator\<close>, number 0, and
  \<^verbatim>\<open>LeadFormDialog\<close>, number 1), both idle: over a log of two operations that both
  have counted, and over an empty database.
\<close>

definition idle :: "nat \<Rightarrow> mounted_hook" where
  "idle n = \<lparr>inst_queueCount = n, inst_isSyncing = False, inst_pass = None\<rparr>"

definition two_instances :: app where
  "two_instances =
     \<lparr>app_queue = [(KStr ''u1'', op_a), (KStr ''u2'', op_b)], app_leads_cache = [],
      app_toasts = [], app_console = [], app_calls = [], instances = [idle 2, idle 2]\<rparr>"

definition two_instances_empty :: app where
  "two_instances_empty =
     \<lparr>app_queue = [], app_leads_cache = [], app_toasts = [], app_console = [],
      app_calls = [], instances = [idle 0, idle 0]\<rparr>"

definition three_calls :: "enqueue_call list" where
  "three_calls =
     [QueueInsert ''t1'' ''u1'' 1000 ''leads'' lead_noid,
      QueueUpdate ''u2'' 2000 ''leads'' lead_1a,
      QueueDelete ''u3'' 3000 ''leads'' ''1'']"

section \<open>Basic facts\<close>

subsection \<open>Object stores\<close>

lemma set_store_insert: "set (store_insert k v st) = insert (k, v) (set st)"
  by (induction st) auto

lemma mset_store_insert: "mset (store_insert k v st) = add_mset (k, v) (mset st)"
  by (induction st) auto

lemma length_store_insert: "length (store_insert k v st) = Suc (length st)"
  by (induction st) auto

lemma set_store_delete: "set (store_delete k st) = {p \<in> set st. fst p \<noteq> k}"
  by (auto simp add: store_delete_def)

lemma lead_key_id:
  "lead_key l = Some (KStr i) \<longleftrightarrow> obj_get l ''id'' = Some (JStr i)"
  by (cases "obj_get l ''id''" rule: key_of_val.cases) (simp_all add: lead_key_def)

lemma distinct_map_Cons_neq:
  "distinct (map f (y # ys)) \<Longrightarrow> k \<in> set ys \<Longrightarrow> f k \<noteq> f y"
proof
  assume d: "distinct (map f (y # ys))" and k: "k \<in> set ys" and e: "f k = f y"
  from k have "f k \<in> f ` set ys" by (rule imageI)
  with e have "f y \<in> set (map f ys)" by simp
  with d show False by simp
qed

subsection \<open>Sorting a permutation of a list whose keys increase strictly\<close>

lemma filter_same_key:
  "distinct (map f ys) \<Longrightarrow> k \<in> set ys \<Longrightarrow> filter (\<lambda>x. f k = f x) ys = [k]"
proof (induction ys)
  case Nil
  then show ?case by simp
next
  case (Cons y ys)
  show ?case
  proof (cases "k = y")
    case True
    have "filter (\<lambda>x. f y = f x) ys = []"
      using Cons.prems(1) by (auto simp add: filter_empty_conv)
    with True show ?thesis by simp
  next
    case False
    with Cons.prems(2) have k: "k \<in> set ys" by simp
    then have "f k \<noteq> f y" using Cons.prems(1) by (rule distinct_map_Cons_neq [rotated])
    with Cons.IH Cons.prems(1) k show ?thesis by simp
  qed
qed

lemma sort_key_permutation:
  assumes "mset xs = mset ys" and "sorted_wrt (<) (map f ys)"
  shows "sort_key f xs = ys"
proof (rule properties_for_sort_key)
  show "mset ys = mset xs" using assms(1) by simp
  have d: "distinct (map f ys)"
    using assms(2) strict_sorted_iff by blast
  show "filter (\<lambda>x. f k = f x) ys = filter (\<lambda>x. f k = f x) xs" if "k \<in> set ys" for k
  proof -
    have ys: "filter (\<lambda>x. f k = f x) ys = [k]"
      using d that by (rule filter_same_key)
    have "mset (filter (\<lambda>x. f k = f x) xs) = mset (filter (\<lambda>x. f k = f x) ys)"
      by (simp add: assms(1))
    then have "mset (filter (\<lambda>x. f k = f x) xs) = {#k#}" by (simp only: ys) simp
    then have "filter (\<lambda>x. f k = f x) xs = [k]" by (simp only: mset_single_iff)
    with ys show ?thesis by simp
  qed
  show "sorted (map f ys)"
    using assms(2) strict_sorted_iff by blast
qed

subsection \<open>The replay loop\<close>

lemma syncQueue_unfold:
  "syncQueue rem s =
     (if isSyncing s then s else sync_finish (sync_pass rem (s\<lparr>isSyncing := True\<rparr>)))"
  by (simp add: syncQueue_def syncQueue_render_def)

lemma sync_loop_Nil: "sync_loop rem [] ts = ts"
  by (simp add: sync_loop_def)

lemma sync_loop_Cons: "sync_loop rem (op # ops) ts = sync_loop rem ops (sync_step rem op ts)"
  by (simp add: sync_loop_def)

lemma sync_loop_append: "sync_loop rem (xs @ ys) ts = sync_loop rem ys (sync_loop rem xs ts)"
  by (simp add: sync_loop_def)

lemma sync_step_success:
  "succeeds rem (calls (snd ts)) op \<Longrightarrow>
   sync_step rem op ts =
     ((fst ts)\<lparr>successCount := successCount (fst ts) + 1\<rparr>,
      (snd ts)\<lparr>calls := calls (snd ts) @ [call_of op],
               queue := store_delete (KStr (op_id op)) (queue (snd ts))\<rparr>)"
  by (simp add: sync_step_def processOperation_def succeeds_def removeFromQueue_def Let_def)

lemma sync_step_failure:
  "\<not> succeeds rem (calls (snd ts)) op \<Longrightarrow>
   \<exists>e. sync_step rem op ts =
     ((fst ts)\<lparr>failCount := failCount (fst ts) + 1\<rparr>,
      (snd ts)\<lparr>calls := sent (calls (snd ts)) op,
               console := console (snd ts) @ [FailedToSyncOperation op e]\<rparr>)"
  by (auto simp add: sync_step_def processOperation_def succeeds_def sent_def Let_def)

lemma sync_step_succeeds:
  assumes "succeeds rem (calls (snd ts)) op"
  shows "fst (sync_step rem op ts) = (fst ts)\<lparr>successCount := successCount (fst ts) + 1\<rparr>"
    and "queue (snd (sync_step rem op ts)) = store_delete (KStr (op_id op)) (queue (snd ts))"
  using assms by (simp_all add: sync_step_success)

lemma sync_step_fails:
  assumes "\<not> succeeds rem (calls (snd ts)) op"
  shows "fst (sync_step rem op ts) = (fst ts)\<lparr>failCount := failCount (fst ts) + 1\<rparr>"
    and "queue (snd (sync_step rem op ts)) = queue (snd ts)"
  using sync_step_failure [OF assms] by auto

lemma sync_step_fields:
  "calls (snd (sync_step rem op ts)) = sent (calls (snd ts)) op"
  "leads_cache (snd (sync_step rem op ts)) = leads_cache (snd ts)"
  "toasts (snd (sync_step rem op ts)) = toasts (snd ts)"
  "isSyncing (snd (sync_step rem op ts)) = isSyncing (snd ts)"
  "queueCount (snd (sync_step rem op ts)) = queueCount (snd ts)"
  by (simp_all add: sync_step_def processOperation_def sent_def removeFromQueue_def Let_def)

lemma sync_loop_fields:
  "calls (snd (sync_loop rem ops ts)) = foldl sent (calls (snd ts)) ops"
  "leads_cache (snd (sync_loop rem ops ts)) = leads_cache (snd ts)"
  "toasts (snd (sync_loop rem ops ts)) = toasts (snd ts)"
  "isSyncing (snd (sync_loop rem ops ts)) = isSyncing (snd ts)"
  "queueCount (snd (sync_loop rem ops ts)) = queueCount (snd ts)"
  by (induction ops arbitrary: ts; simp add: sync_loop_Nil sync_loop_Cons sync_step_fields)+

lemma foldl_sent:
  "foldl sent h ops = h @ map call_of (filter (\<lambda>op. op_table op = ''leads'') ops)"
  by (induction ops arbitrary: h) (simp_all add: sent_def)

lemma queue_sync_loop_all_succeed:
  "\<forall>h c. \<not> rem h c \<Longrightarrow> list_all (\<lambda>op. op_table op = ''leads'') ops \<Longrightarrow>
   queue (snd (sync_loop rem ops ts))
     = filter (\<lambda>p. fst p \<notin> set (map (KStr \<circ> op_id) ops)) (queue (snd ts))"
proof (induction ops arbitrary: ts)
  case Nil
  then show ?case by (simp add: sync_loop_Nil)
next
  case (Cons op ops)
  have "succeeds rem (calls (snd ts)) op"
    using Cons.prems by (simp add: succeeds_def)
  then have step:
    "queue (snd (sync_step rem op ts)) = store_delete (KStr (op_id op)) (queue (snd ts))"
    by (simp add: sync_step_success)
  have "list_all (\<lambda>op. op_table op = ''leads'') ops"
    using Cons.prems(2) by simp
  from Cons.IH [OF Cons.prems(1) this, of "sync_step rem op ts"]
  show ?case
    unfolding sync_loop_Cons step by (simp add: store_delete_def conj_commute)
qed

lemma sync_finish_fields:
  "queue (sync_finish ts) = queue (snd ts)"
  "calls (sync_finish ts) = calls (snd ts)"
  by (simp_all add: sync_finish_def updateQueueCount_def add_toast_def Let_def)

lemma sync_finish_count: "queueCount (sync_finish ts) = getQueueCount (sync_finish ts)"
  by (simp add: sync_finish_def updateQueueCount_def getQueueCount_def add_toast_def Let_def)

lemma sync_finish_toasts:
  "toasts (sync_finish ts) =
     (if successCount (fst ts) > 0 then toasts (snd ts) @ [sync_complete (fst ts)]
      else toasts (snd ts))"
  by (simp add: sync_finish_def updateQueueCount_def add_toast_def Let_def)

lemma only_failed_remains:
  assumes "queue_ok s" and "mset (map snd (queue s)) = mset [A, B, C]"
  shows "map snd (store_delete (KStr (op_id C)) (store_delete (KStr (op_id A)) (queue s))) = [B]"
proof -
  let ?P = "\<lambda>op. op_id op \<noteq> op_id A \<and> op_id op \<noteq> op_id C"
  have key: "\<forall>p \<in> set (queue s). fst p = KStr (op_id (snd p))"
    using assms(1) by (simp add: queue_ok_def list_all_iff)
  then have e: "map (KStr \<circ> op_id) (map snd (queue s)) = map fst (queue s)"
    by simp
  have "distinct (map fst (queue s))"
    using assms(1) by (simp add: queue_ok_def)
  then have "distinct (map (KStr \<circ> op_id) (map snd (queue s)))"
    by (simp only: e)
  then have "distinct (map op_id (map snd (queue s)))"
    by (simp add: distinct_map comp_def inj_on_def)
  moreover have "mset (map op_id (map snd (queue s))) = mset (map op_id [A, B, C])"
    using arg_cong [OF assms(2), of "image_mset op_id"] by (simp add: multiset.map_comp)
  ultimately have "distinct (map op_id [A, B, C])"
    by (metis mset_eq_imp_distinct_iff)
  then have ids: "op_id A \<noteq> op_id B" "op_id B \<noteq> op_id C" "op_id A \<noteq> op_id C"
    by auto
  have "filter (\<lambda>p. fst p \<noteq> KStr (op_id A) \<and> fst p \<noteq> KStr (op_id C)) (queue s)
          = filter (?P \<circ> snd) (queue s)"
    using key by (intro filter_cong) auto
  then have "map snd (store_delete (KStr (op_id C)) (store_delete (KStr (op_id A)) (queue s)))
          = filter ?P (map snd (queue s))"
    by (simp add: store_delete_def filter_map)
  moreover have "mset (filter ?P (map snd (queue s))) = mset (filter ?P [A, B, C])"
    using arg_cong [OF assms(2), of "filter_mset ?P"] by simp
  moreover have "filter ?P [A, B, C] = [B]"
    using ids by auto
  ultimately have "mset (map snd (store_delete (KStr (op_id C))
                      (store_delete (KStr (op_id A)) (queue s)))) = mset [B]"
    by simp
  then show ?thesis by (simp only: mset.simps mset_single_iff)
qed

subsection \<open>Sequences of enqueue calls\<close>

lemma run_call_fields:
  "calls (run_call c s) = calls s"
  "isSyncing (run_call c s) = isSyncing s"
  by (cases c; simp add: queueInsert_def queueUpdate_def queueDelete_def addToQueue_def
      updateCachedLead_def updateQueueCount_def add_toast_def deleteCachedLead_def Let_def
      split: option.splits)+

lemma run_call_queue:
  "\<not> store_has (KStr (op_id (logged_op c))) (queue s) \<Longrightarrow>
   queue (run_call c s) = store_insert (KStr (op_id (logged_op c))) (logged_op c) (queue s)"
  by (cases c; simp add: queueInsert_def queueUpdate_def queueDelete_def addToQueue_def
      updateCachedLead_def updateQueueCount_def add_toast_def deleteCachedLead_def Let_def
      store_add_def split: option.splits)

lemma run_calls_Cons: "run_calls (c # cs) s = run_calls cs (run_call c s)"
  by (simp add: run_calls_def)

lemma run_calls_fields:
  "calls (run_calls cs s) = calls s \<and> isSyncing (run_calls cs s) = isSyncing s"
  by (induction cs arbitrary: s) (simp_all add: run_calls_def run_call_fields)

lemma run_calls_queue:
  "distinct (map (op_id \<circ> logged_op) cs) \<Longrightarrow>
   list_all (\<lambda>c. \<not> store_has (KStr (op_id (logged_op c))) (queue s)) cs \<Longrightarrow>
   mset (queue (run_calls cs s)) = mset (queue s) + mset (map (keyed \<circ> logged_op) cs)"
proof (induction cs arbitrary: s)
  case Nil
  then show ?case by (simp add: run_calls_def)
next
  case (Cons c cs)
  have q: "queue (run_call c s) = store_insert (KStr (op_id (logged_op c))) (logged_op c) (queue s)"
    using Cons.prems(2) by (simp add: run_call_queue)
  have "\<not> store_has (KStr (op_id (logged_op c'))) (queue (run_call c s))" if "c' \<in> set cs" for c'
  proof -
    have "op_id (logged_op c') \<noteq> op_id (logged_op c)"
      using distinct_map_Cons_neq [OF Cons.prems(1) that] by simp
    moreover have "\<not> store_has (KStr (op_id (logged_op c'))) (queue s)"
      using Cons.prems(2) that by (simp add: list_all_iff)
    ultimately show ?thesis
      by (auto simp add: q store_has_def set_store_insert)
  qed
  then have "list_all (\<lambda>c'. \<not> store_has (KStr (op_id (logged_op c'))) (queue (run_call c s))) cs"
    by (simp add: list_all_iff)
  with Cons.IH [of "run_call c s"] Cons.prems(1)
  show ?case by (simp add: run_calls_Cons q mset_store_insert keyed_def)
qed

subsection \<open>The add requests of one transaction\<close>

lemma run_adds_distinct:
  "list_all (\<lambda>l. lead_key l \<noteq> None) leads \<Longrightarrow> distinct (map lead_key leads) \<Longrightarrow>
   list_all (\<lambda>l. lead_key l \<notin> Some ` set (map fst st)) leads \<Longrightarrow>
   \<exists>st'. run_adds leads st = Some st' \<and> mset (map snd st') = mset (map snd st) + mset leads"
proof (induction leads arbitrary: st)
  case Nil
  then show ?case by simp
next
  case (Cons l leads)
  from Cons.prems(1) obtain k where k: "lead_key l = Some k" by auto
  have fresh: "\<not> store_has k st"
    using Cons.prems(3) k by (auto simp add: store_has_def)
  let ?st = "store_insert k l st"
  have "list_all (\<lambda>l. lead_key l \<notin> Some ` set (map fst ?st)) leads"
    using Cons.prems(2,3) k by (force simp add: list_all_iff set_store_insert)
  with Cons.IH [of ?st] Cons.prems(1,2)
  obtain st' where "run_adds leads ?st = Some st'"
    "mset (map snd st') = mset (map snd ?st) + mset leads" by auto
  then show ?case
    using k fresh by (simp add: store_add_def mset_store_insert)
qed

lemma run_adds_clash:
  "list_all (\<lambda>l. lead_key l \<noteq> None) leads \<Longrightarrow>
   \<not> distinct (map lead_key leads)
     \<or> \<not> list_all (\<lambda>l. lead_key l \<notin> Some ` set (map fst st)) leads \<Longrightarrow>
   run_adds leads st = None"
proof (induction leads arbitrary: st)
  case Nil
  then show ?case by simp
next
  case (Cons l leads)
  from Cons.prems(1) obtain k where k: "lead_key l = Some k" by auto
  show ?case
  proof (cases "store_has k st")
    case True
    then show ?thesis using k by (simp add: store_add_def)
  next
    case False
    let ?st = "store_insert k l st"
    have "\<not> distinct (map lead_key leads)
          \<or> \<not> list_all (\<lambda>l. lead_key l \<notin> Some ` set (map fst ?st)) leads"
      using Cons.prems(2) k False
      by (auto simp add: list_all_iff set_store_insert store_has_def)
    with Cons.IH [of ?st] Cons.prems(1) have "run_adds leads ?st = None" by simp
    then show ?thesis using k False by (simp add: store_add_def)
  qed
qed

subsection \<open>The store invariants hold in every reachable state\<close>

text \<open>
  Unique keys, and every record under the value of its own \<^verbatim>\<open>id\<close>: true of the empty
  database and kept by every function of the storage module and of the hook.
\<close>

lemma keys_store_insert: "set (map fst (store_insert k v st)) = insert k (set (map fst st))"
  by (simp add: set_store_insert)

lemma distinct_keys_store_insert:
  "distinct (map fst (store_insert k v st)) \<longleftrightarrow> k \<notin> set (map fst st) \<and> distinct (map fst st)"
proof (induction st)
  case Nil
  show ?case by simp
next
  case (Cons p st)
  have "set (map fst (store_insert k v st)) = insert k (set (map fst st))"
    by (rule keys_store_insert)
  with Cons show ?case by auto
qed

lemma distinct_keys_store_delete:
  "distinct (map fst st) \<Longrightarrow> distinct (map fst (store_delete k st))"
  by (simp add: store_delete_def distinct_map_filter)

lemma list_all_store_insert:
  "list_all P (store_insert k v st) \<longleftrightarrow> P (k, v) \<and> list_all P st"
  by (auto simp add: list_all_iff set_store_insert)

lemma list_all_store_delete: "list_all P st \<Longrightarrow> list_all P (store_delete k st)"
  by (simp add: list_all_iff set_store_delete)

lemma queue_ok_addToQueue: "queue_ok s \<Longrightarrow> queue_ok (snd (addToQueue uuid now ty tbl d s))"
  by (simp add: queue_ok_def addToQueue_def store_add_def store_has_def Let_def
      distinct_keys_store_insert list_all_store_insert)

lemma queue_ok_removeFromQueue: "queue_ok s \<Longrightarrow> queue_ok (removeFromQueue i s)"
  by (simp add: queue_ok_def removeFromQueue_def distinct_keys_store_delete
      list_all_store_delete)

lemma cache_ok_updateCachedLead: "cache_ok s \<Longrightarrow> cache_ok (snd (updateCachedLead lead s))"
  by (auto simp add: cache_ok_def updateCachedLead_def store_put_def distinct_keys_store_insert
      list_all_store_insert distinct_keys_store_delete list_all_store_delete
      set_store_delete split: option.splits)

lemma cache_ok_deleteCachedLead: "cache_ok s \<Longrightarrow> cache_ok (deleteCachedLead i s)"
  by (simp add: cache_ok_def deleteCachedLead_def distinct_keys_store_delete
      list_all_store_delete)

lemma run_adds_ok:
  "run_adds leads st = Some st' \<Longrightarrow> distinct (map fst st) \<Longrightarrow>
   list_all (\<lambda>p. lead_key (snd p) = Some (fst p)) st \<Longrightarrow>
   distinct (map fst st') \<and> list_all (\<lambda>p. lead_key (snd p) = Some (fst p)) st'"
proof (induction leads arbitrary: st)
  case Nil
  then show ?case by simp
next
  case (Cons l leads)
  from Cons.prems(1) obtain k where k: "lead_key l = Some k"
    by (auto split: option.splits)
  from Cons.prems(1) k have fresh: "\<not> store_has k st"
    and rest: "run_adds leads (store_insert k l st) = Some st'"
    by (auto simp add: store_add_def split: if_splits)
  show ?case
    using Cons.IH [OF rest] Cons.prems(2,3) k fresh
    by (simp add: distinct_keys_store_insert list_all_store_insert store_has_def)
qed

lemma cache_ok_cacheLeads: "cache_ok s \<Longrightarrow> cache_ok (snd (cacheLeads leads s))"
proof -
  assume ok: "cache_ok s"
  let ?placed = "takeWhile (\<lambda>lead. lead_key lead \<noteq> None) leads"
  show ?thesis
  proof (cases "run_adds ?placed []")
    case None
    then show ?thesis using ok by (simp add: cacheLeads_def Let_def)
  next
    case (Some c)
    from run_adds_ok [OF Some] have "cache_ok (s\<lparr>leads_cache := c\<rparr>)"
      by (simp add: cache_ok_def)
    with Some show ?thesis by (simp add: cacheLeads_def Let_def)
  qed
qed

lemma sync_step_queue_ok: "queue_ok (snd ts) \<Longrightarrow> queue_ok (snd (sync_step rem op ts))"
proof (cases "succeeds rem (calls (snd ts)) op")
  case True
  assume "queue_ok (snd ts)"
  then show ?thesis
    using sync_step_succeeds(2) [OF True]
    by (simp add: queue_ok_def distinct_keys_store_delete list_all_store_delete)
next
  case False
  assume "queue_ok (snd ts)"
  then show ?thesis
    using sync_step_fails(2) [OF False] by (simp add: queue_ok_def)
qed

lemma sync_loop_queue_ok: "queue_ok (snd ts) \<Longrightarrow> queue_ok (snd (sync_loop rem ops ts))"
  by (induction ops arbitrary: ts) (simp_all add: sync_loop_Nil sync_loop_Cons sync_step_queue_ok)

lemma stores_ok_init: "queue_ok init_state \<and> cache_ok init_state"
  by (simp add: queue_ok_def cache_ok_def init_state_def)

lemma stores_ok_syncQueue:
  "queue_ok s \<and> cache_ok s \<Longrightarrow> queue_ok (syncQueue rem s) \<and> cache_ok (syncQueue rem s)"
proof -
  assume ok: "queue_ok s \<and> cache_ok s"
  let ?p = "sync_pass rem (s\<lparr>isSyncing := True\<rparr>)"
  have "queue_ok (snd ?p)"
    using ok sync_loop_queue_ok [of "(\<lparr>successCount = 0, failCount = 0\<rparr>, s\<lparr>isSyncing := True\<rparr>)"]
    by (simp add: sync_pass_def queue_ok_def)
  then have q: "queue_ok (sync_finish ?p)"
    by (simp add: queue_ok_def sync_finish_fields)
  have "leads_cache (sync_finish ?p) = leads_cache s"
    by (simp add: sync_finish_def updateQueueCount_def add_toast_def Let_def sync_pass_def
        sync_loop_fields)
  then have "cache_ok (sync_finish ?p)"
    using ok by (simp add: cache_ok_def)
  with q ok show ?thesis by (simp add: syncQueue_unfold)
qed

lemma stores_ok_run_call:
  "queue_ok s \<and> cache_ok s \<Longrightarrow> queue_ok (run_call c s) \<and> cache_ok (run_call c s)"
proof (cases c)
  case (QueueInsert uuid1 uuid2 now tbl d)
  assume ok: "queue_ok s \<and> cache_ok s"
  let ?a = "snd (addToQueue uuid2 now Insert tbl d s)"
  let ?u = "snd (updateCachedLead (obj_set ''id'' (JStr (''temp_'' @ uuid1)) d) ?a)"
  have a: "queue_ok ?a \<and> cache_ok ?a"
    using ok queue_ok_addToQueue [of s uuid2 now Insert tbl d]
    by (auto simp add: cache_ok_def addToQueue_def Let_def split: option.splits)
  then have u: "queue_ok ?u \<and> cache_ok ?u"
    using cache_ok_updateCachedLead [of ?a]
    by (auto simp add: queue_ok_def updateCachedLead_def split: option.splits)
  show ?thesis
    using a u
    by (auto simp add: QueueInsert queueInsert_def Let_def queue_ok_def cache_ok_def
        updateQueueCount_def add_toast_def split: prod.splits sum.splits)
next
  case (QueueUpdate uuid now tbl d)
  assume ok: "queue_ok s \<and> cache_ok s"
  let ?a = "snd (addToQueue uuid now Update tbl d s)"
  let ?u = "snd (updateCachedLead d ?a)"
  have a: "queue_ok ?a \<and> cache_ok ?a"
    using ok queue_ok_addToQueue [of s uuid now Update tbl d]
    by (auto simp add: cache_ok_def addToQueue_def Let_def split: option.splits)
  then have u: "queue_ok ?u \<and> cache_ok ?u"
    using cache_ok_updateCachedLead [of ?a]
    by (auto simp add: queue_ok_def updateCachedLead_def split: option.splits)
  show ?thesis
    using a u
    by (auto simp add: QueueUpdate queueUpdate_def Let_def queue_ok_def cache_ok_def
        updateQueueCount_def add_toast_def split: prod.splits sum.splits)
next
  case (QueueDelete uuid now tbl i)
  assume ok: "queue_ok s \<and> cache_ok s"
  let ?a = "snd (addToQueue uuid now Delete tbl [(''id'', JStr i)] s)"
  have a: "queue_ok ?a \<and> cache_ok ?a"
    using ok queue_ok_addToQueue [of s uuid now Delete tbl "[(''id'', JStr i)]"]
    by (auto simp add: cache_ok_def addToQueue_def Let_def split: option.splits)
  then have "queue_ok (deleteCachedLead i ?a) \<and> cache_ok (deleteCachedLead i ?a)"
    using cache_ok_deleteCachedLead [of ?a i]
    by (simp add: queue_ok_def deleteCachedLead_def)
  then show ?thesis
    using a
    by (auto simp add: QueueDelete queueDelete_def Let_def queue_ok_def cache_ok_def
        updateQueueCount_def add_toast_def split: prod.splits sum.splits)
qed

subsection \<open>What a pass leaves in the log\<close>

text \<open>
  The loop only removes records, and only those of the operations it handles; an operation
  on \<^verbatim>\<open>leads\<close> is still in the log after its turn exactly when the remote service, having
  received the requests of the operations before it, rejected its request.
\<close>

lemma sync_step_only_removes:
  "p \<in> set (queue (snd (sync_step rem op ts))) \<Longrightarrow> p \<in> set (queue (snd ts))"
proof (cases "succeeds rem (calls (snd ts)) op")
  case True
  assume "p \<in> set (queue (snd (sync_step rem op ts)))"
  then show ?thesis
    by (simp add: sync_step_succeeds(2) [OF True] set_store_delete)
next
  case False
  assume "p \<in> set (queue (snd (sync_step rem op ts)))"
  then show ?thesis
    by (simp add: sync_step_fails(2) [OF False])
qed

lemma sync_step_keeps_others:
  "p \<in> set (queue (snd ts)) \<Longrightarrow> fst p \<noteq> KStr (op_id op) \<Longrightarrow>
   p \<in> set (queue (snd (sync_step rem op ts)))"
proof (cases "succeeds rem (calls (snd ts)) op")
  case True
  assume "p \<in> set (queue (snd ts))" "fst p \<noteq> KStr (op_id op)"
  then show ?thesis
    by (simp add: sync_step_succeeds(2) [OF True] set_store_delete)
next
  case False
  assume "p \<in> set (queue (snd ts))"
  then show ?thesis
    by (simp add: sync_step_fails(2) [OF False])
qed

lemma sync_loop_only_removes:
  "p \<in> set (queue (snd (sync_loop rem ops ts))) \<Longrightarrow> p \<in> set (queue (snd ts))"
proof (induction ops arbitrary: ts)
  case Nil
  then show ?case by (simp add: sync_loop_Nil)
next
  case (Cons op ops)
  then have "p \<in> set (queue (snd (sync_step rem op ts)))"
    by (simp add: sync_loop_Cons)
  then show ?case by (rule sync_step_only_removes)
qed

lemma sync_loop_keeps_others:
  "p \<in> set (queue (snd ts)) \<Longrightarrow> fst p \<notin> set (map (KStr \<circ> op_id) ops) \<Longrightarrow>
   p \<in> set (queue (snd (sync_loop rem ops ts)))"
proof (induction ops arbitrary: ts)
  case Nil
  then show ?case by (simp add: sync_loop_Nil)
next
  case (Cons op ops)
  from Cons.prems have "p \<in> set (queue (snd (sync_step rem op ts)))"
    by (intro sync_step_keeps_others) auto
  moreover from Cons.prems(2) have "fst p \<notin> set (map (KStr \<circ> op_id) ops)"
    by simp
  ultimately show ?case
    using Cons.IH by (simp add: sync_loop_Cons)
qed

lemma sync_loop_calls_leads:
  "list_all (\<lambda>op. op_table op = ''leads'') ops \<Longrightarrow>
   calls (snd (sync_loop rem ops ts)) = calls (snd ts) @ map call_of ops"
proof -
  assume "list_all (\<lambda>op. op_table op = ''leads'') ops"
  then have "filter (\<lambda>op. op_table op = ''leads'') ops = ops"
    by (simp add: list_all_iff)
  then show ?thesis
    by (simp add: sync_loop_fields foldl_sent)
qed

lemma sync_step_tally:
  "successCount (fst (sync_step rem op ts)) + failCount (fst (sync_step rem op ts))
     = Suc (successCount (fst ts) + failCount (fst ts))"
proof (cases "succeeds rem (calls (snd ts)) op")
  case True
  show ?thesis by (simp add: sync_step_succeeds(1) [OF True])
next
  case False
  show ?thesis by (simp add: sync_step_fails(1) [OF False])
qed

lemma sync_loop_tally:
  "successCount (fst (sync_loop rem ops ts)) + failCount (fst (sync_loop rem ops ts))
     = successCount (fst ts) + failCount (fst ts) + length ops"
  by (induction ops arbitrary: ts) (simp_all add: sync_loop_Nil sync_loop_Cons sync_step_tally)

lemma sync_step_verdict:
  assumes "op_table op = ''leads''" and "(KStr (op_id op), op) \<in> set (queue (snd ts))"
  shows "(KStr (op_id op), op) \<in> set (queue (snd (sync_step rem op ts)))
           \<longleftrightarrow> rem (calls (snd ts)) (call_of op)"
proof (cases "succeeds rem (calls (snd ts)) op")
  case True
  then have "\<not> rem (calls (snd ts)) (call_of op)" by (simp add: succeeds_def)
  then show ?thesis
    by (simp add: sync_step_succeeds(2) [OF True] set_store_delete)
next
  case False
  then have "rem (calls (snd ts)) (call_of op)" using assms(1) by (simp add: succeeds_def)
  then show ?thesis
    using assms(2) by (simp add: sync_step_fails(2) [OF False])
qed

lemma sync_loop_verdict:
  assumes "list_all (\<lambda>op. op_table op = ''leads'') (us @ x # vs)"
    and "distinct (map op_id (us @ x # vs))"
    and "(KStr (op_id x), x) \<in> set (queue (snd ts))"
  shows "(KStr (op_id x), x) \<in> set (queue (snd (sync_loop rem (us @ x # vs) ts)))
           \<longleftrightarrow> rem (calls (snd ts) @ map call_of us) (call_of x)"
proof -
  let ?p = "(KStr (op_id x), x)"
  let ?m = "sync_loop rem us ts"
  have us: "fst ?p \<notin> set (map (KStr \<circ> op_id) us)" and vs: "fst ?p \<notin> set (map (KStr \<circ> op_id) vs)"
    using assms(2) by auto
  have m: "?p \<in> set (queue (snd ?m))"
    using assms(3) us by (rule sync_loop_keeps_others)
  have c: "calls (snd ?m) = calls (snd ts) @ map call_of us"
    using assms(1) by (simp add: sync_loop_calls_leads)
  have step: "?p \<in> set (queue (snd (sync_step rem x ?m)))
                \<longleftrightarrow> rem (calls (snd ts) @ map call_of us) (call_of x)"
    using sync_step_verdict [OF _ m, of rem] assms(1) by (simp add: c)
  have "?p \<in> set (queue (snd (sync_loop rem vs (sync_step rem x ?m))))
          \<longleftrightarrow> ?p \<in> set (queue (snd (sync_step rem x ?m)))"
    using sync_loop_only_removes sync_loop_keeps_others [OF _ vs] by blast
  with step show ?thesis
    by (simp add: sync_loop_append sync_loop_Cons)
qed

lemma replay_ids_distinct:
  assumes "queue_ok s"
  shows "distinct (map op_id (getQueuedOperations s))"
proof -
  have "\<forall>p \<in> set (queue s). fst p = KStr (op_id (snd p))"
    using assms by (simp add: queue_ok_def list_all_iff)
  then have e: "map (KStr \<circ> op_id) (map snd (queue s)) = map fst (queue s)"
    by simp
  have "distinct (map fst (queue s))"
    using assms by (simp add: queue_ok_def)
  then have "distinct (map (KStr \<circ> op_id) (map snd (queue s)))"
    by (simp only: e)
  then have "distinct (map op_id (map snd (queue s)))"
    by (simp add: distinct_map comp_def inj_on_def)
  moreover have "mset (map op_id (getQueuedOperations s)) = mset (map op_id (map snd (queue s)))"
    by (simp add: getQueuedOperations_def store_getAll_def multiset.map_comp)
  ultimately show ?thesis
    by (metis mset_eq_imp_distinct_iff)
qed

lemma keyed_member:
  "list_all (\<lambda>p. fst p = KStr (op_id (snd p))) q \<Longrightarrow>
   x \<in> set (map snd q) \<longleftrightarrow> (KStr (op_id x), x) \<in> set q"
  by (force simp add: list_all_iff)

subsection \<open>A pass of one hook, event by event\<close>

text \<open>
  When nothing else takes a turn in between, the events of one pass (the call, one step
  per operation of the snapshot, the end) amount to \<open>syncQueue\<close> on the state of that hook.
\<close>

lemma focus_unfocus:
  "n < length (instances a) \<Longrightarrow> focus (instances (unfocus n s p a) ! n) (unfocus n s p a) = s"
  by (simp add: focus_def unfocus_def)

lemma unfocus_unfocus: "unfocus n s' p' (unfocus n s p a) = unfocus n s' p' a"
  by (simp add: unfocus_def)

lemma unfocus_fields:
  "length (instances (unfocus n s p a)) = length (instances a)"
  "n < length (instances a) \<Longrightarrow> inst_pass (instances (unfocus n s p a) ! n) = p"
  by (simp_all add: unfocus_def)

lemma run_events_Cons: "run_events rem (e # es) a = run_events rem es (run_event rem e a)"
  by (simp add: run_events_def)

lemma run_events_Nil: "run_events rem [] a = a"
  by (simp add: run_events_def)

lemma run_events_append: "run_events rem (es @ fs) a = run_events rem fs (run_events rem es a)"
  by (simp add: run_events_def)

lemma steps_are_the_loop:
  "n < length (instances a) \<Longrightarrow>
   run_events rem (replicate (length ops) (StepSync n)) (unfocus n s (Some (t, ops)) a)
     = unfocus n (snd (sync_loop rem ops (t, s))) (Some (fst (sync_loop rem ops (t, s)), [])) a"
proof (induction ops arbitrary: t s)
  case Nil
  then show ?case by (simp add: run_events_def sync_loop_Nil)
next
  case (Cons op ops)
  let ?ts = "sync_step rem op (t, s)"
  have "run_event rem (StepSync n) (unfocus n s (Some (t, op # ops)) a)
          = unfocus n (snd ?ts) (Some (fst ?ts, ops)) a"
    using Cons.prems by (simp add: unfocus_fields focus_unfocus unfocus_unfocus Let_def)
  then show ?case
    using Cons.IH [OF Cons.prems, of "snd ?ts" "fst ?ts"]
    by (simp add: run_events_Cons sync_loop_Cons)
qed

lemma uninterrupted_pass:
  assumes "n < length (instances a)" and "\<not> inst_isSyncing (instances a ! n)"
  shows "run_events rem
           (StartSync n
              # replicate (length (getQueuedOperations (focus (instances a ! n) a))) (StepSync n)
              @ [FinishSync n]) a
         = unfocus n (syncQueue rem (focus (instances a ! n) a)) None a"
proof -
  let ?s = "focus (instances a ! n) a"
  let ?s1 = "?s\<lparr>isSyncing := True\<rparr>"
  let ?t0 = "\<lparr>successCount = 0, failCount = 0\<rparr>"
  let ?ops = "getQueuedOperations ?s"
  have idle: "\<not> isSyncing ?s"
    using assms(2) by (simp add: focus_def)
  have start: "run_event rem (StartSync n) a = unfocus n ?s1 (Some (?t0, ?ops)) a"
    using assms(1) idle by (simp add: Let_def)
  let ?r = "sync_loop rem ?ops (?t0, ?s1)"
  have loop: "run_events rem (replicate (length ?ops) (StepSync n)) (unfocus n ?s1 (Some (?t0, ?ops)) a)
          = unfocus n (snd ?r) (Some (fst ?r, [])) a"
    using assms(1) by (rule steps_are_the_loop)
  have fin: "run_event rem (FinishSync n) (unfocus n (snd ?r) (Some (fst ?r, [])) a)
          = unfocus n (sync_finish ?r) None a"
    using assms(1) by (simp add: unfocus_fields focus_unfocus unfocus_unfocus)
  have "getQueuedOperations ?s1 = ?ops"
    by (simp add: getQueuedOperations_def)
  then have "syncQueue rem ?s = sync_finish ?r"
    using idle by (simp add: syncQueue_unfold sync_pass_def)
  moreover have "run_events rem (StartSync n # replicate (length ?ops) (StepSync n) @ [FinishSync n]) a
      = run_event rem (FinishSync n)
          (run_events rem (replicate (length ?ops) (StepSync n)) (run_event rem (StartSync n) a))"
    by (simp only: run_events_Cons run_events_append run_events_Nil)
  ultimately show ?thesis
    by (simp only: start loop fin)
qed

section \<open>The claims\<close>

subsection \<open>C1: a drain after a sequence of enqueue calls\<close>

text \<open>
  C1, as amended. Take any sequence of \<^verbatim>\<open>queueInsert\<close>, \<^verbatim>\<open>queueUpdate\<close> and
  \<^verbatim>\<open>queueDelete\<close> calls on the table \<^verbatim>\<open>leads\<close>, made on an empty log, whose operation
  identifiers are pairwise distinct and whose timestamps increase strictly, and follow it
  by one \<^verbatim>\<open>syncQueue\<close> against a remote service that accepts every request. Then the
  pass replays the operations in the order they were enqueued, the log is empty afterwards,
  the exposed depth is 0, and the remote service has received exactly one request per
  operation, in enqueue order.
\<close>

theorem drain_after_enqueues:
  assumes "queue s = []" and "\<not> isSyncing s"
    and "list_all (\<lambda>c. op_table (logged_op c) = ''leads'') cs"
    and "distinct (map (op_id \<circ> logged_op) cs)"
    and "sorted_wrt (<) (map (timestamp \<circ> logged_op) cs)"
    and "\<forall>h c. \<not> rem h c"
  shows "getQueuedOperations (run_calls cs s) = map logged_op cs
       \<and> queue (syncQueue rem (run_calls cs s)) = []
       \<and> queueCount (syncQueue rem (run_calls cs s)) = 0
       \<and> calls (syncQueue rem (run_calls cs s)) = calls s @ map (call_of \<circ> logged_op) cs"
proof -
  let ?s1 = "run_calls cs s"
  let ?ops = "map logged_op cs"
  have q: "mset (queue ?s1) = mset (map (keyed \<circ> logged_op) cs)"
    using run_calls_queue [OF assms(4), of s] assms(1) by (simp add: store_has_def list_all_iff)
  have "mset (map snd (queue ?s1)) = mset ?ops"
    using arg_cong [OF q, of "image_mset snd"]
    by (simp add: keyed_def comp_def multiset.map_comp)
  moreover have "sorted_wrt (<) (map timestamp ?ops)"
    using assms(5) by (simp add: comp_def)
  ultimately have ops: "getQueuedOperations ?s1 = ?ops"
    by (simp add: getQueuedOperations_def store_getAll_def sort_key_permutation)
  have idle: "\<not> isSyncing ?s1"
    using assms(2) by (simp add: run_calls_fields)
  have pass: "sync_pass rem (?s1\<lparr>isSyncing := True\<rparr>)
                = sync_loop rem ?ops (\<lparr>successCount = 0, failCount = 0\<rparr>, ?s1\<lparr>isSyncing := True\<rparr>)"
    using ops by (simp add: sync_pass_def getQueuedOperations_def)
  have leads: "list_all (\<lambda>op. op_table op = ''leads'') ?ops"
    using assms(3) by (simp add: list_all_iff)
  have "set (queue ?s1) = set (map (keyed \<circ> logged_op) cs)"
    using q by (rule mset_eq_setD)
  then have "\<forall>p \<in> set (queue ?s1). fst p \<in> set (map (KStr \<circ> op_id) ?ops)"
    by (auto simp add: keyed_def)
  then have "filter (\<lambda>p. fst p \<notin> set (map (KStr \<circ> op_id) ?ops)) (queue ?s1) = []"
    by (simp add: filter_empty_conv)
  then have empty: "queue (syncQueue rem ?s1) = []"
    using idle queue_sync_loop_all_succeed [OF assms(6) leads]
    by (simp add: syncQueue_unfold pass sync_finish_fields)
  have "queueCount (syncQueue rem ?s1) = getQueueCount (syncQueue rem ?s1)"
    using idle by (simp add: syncQueue_unfold sync_finish_count)
  then have count: "queueCount (syncQueue rem ?s1) = 0"
    using empty by (simp add: getQueueCount_def store_count_def)
  have "filter (\<lambda>op. op_table op = ''leads'') ?ops = ?ops"
    using leads by (simp add: list_all_iff)
  then have "calls (syncQueue rem ?s1) = calls s @ map call_of ?ops"
    using idle
    by (simp add: syncQueue_unfold pass sync_finish_fields sync_loop_fields foldl_sent
        run_calls_fields)
  then show ?thesis using ops empty count by (simp add: comp_def)
qed

text \<open>
  The theorem at three calls made on the initial state: an insert, an update and a delete,
  one second apart.
\<close>

theorem drain_after_enqueues_witness:
  "queue init_state = [] \<and> \<not> isSyncing init_state
   \<and> list_all (\<lambda>c. op_table (logged_op c) = ''leads'') three_calls
   \<and> distinct (map (op_id \<circ> logged_op) three_calls)
   \<and> sorted_wrt (<) (map (timestamp \<circ> logged_op) three_calls)
   \<and> (\<forall>h c. \<not> accepts_all h c)
   \<and> queue (syncQueue accepts_all (run_calls three_calls init_state)) = []
   \<and> queueCount (syncQueue accepts_all (run_calls three_calls init_state)) = 0
   \<and> calls (syncQueue accepts_all (run_calls three_calls init_state))
       = [RemoteInsert [(''client_name'', JStr ''Dune'')],
          RemoteUpdate (Some (JStr ''1'')) [(''client_name'', JStr ''Acme'')],
          RemoteDelete (Some (JStr ''1''))]"
proof -
  have h: "queue init_state = []" "\<not> isSyncing init_state"
    "list_all (\<lambda>c. op_table (logged_op c) = ''leads'') three_calls"
    "distinct (map (op_id \<circ> logged_op) three_calls)"
    "sorted_wrt (<) (map (timestamp \<circ> logged_op) three_calls)"
    "\<forall>h c. \<not> accepts_all h c"
    by (simp_all add: init_state_def three_calls_def accepts_all_def)
  have c: "calls init_state @ map (call_of \<circ> logged_op) three_calls
       = [RemoteInsert [(''client_name'', JStr ''Dune'')],
          RemoteUpdate (Some (JStr ''1'')) [(''client_name'', JStr ''Acme'')],
          RemoteDelete (Some (JStr ''1''))]"
    by (simp add: init_state_def three_calls_def call_of_def obj_del_def obj_get_def
        lead_noid_def lead_1a_def)
  note r = drain_after_enqueues [OF h]
  show ?thesis
    using r [unfolded c] h by blast
qed

text \<open>
  C1 as stated fails: \<^verbatim>\<open>processOperation\<close> throws for a table other than
  \<^verbatim>\<open>leads\<close> before it contacts the remote service. After one \<^verbatim>\<open>queueDelete\<close> on the
  table \<^verbatim>\<open>contacts\<close> and a drain against a remote service that accepts everything, the
  operation is still in the log, the depth is 1 and the remote service has received
  nothing.
\<close>

theorem drain_unsupported_table_counterexample:
  "store_getAll (queue (syncQueue accepts_all
       (run_calls [QueueDelete ''u1'' 1000 ''contacts'' ''7''] init_state)))
     = [\<lparr>op_id = ''u1'', op_type = Delete, op_table = ''contacts'',
         op_data = [(''id'', JStr ''7'')], timestamp = 1000\<rparr>]
   \<and> queueCount (syncQueue accepts_all
       (run_calls [QueueDelete ''u1'' 1000 ''contacts'' ''7''] init_state)) = 1
   \<and> calls (syncQueue accepts_all
       (run_calls [QueueDelete ''u1'' 1000 ''contacts'' ''7''] init_state)) = []"
  by (simp add: run_calls_def queueDelete_def addToQueue_def store_add_def store_has_def
      deleteCachedLead_def store_delete_def updateQueueCount_def getQueueCount_def
      store_count_def add_toast_def init_state_def syncQueue_unfold sync_pass_def sync_finish_def
      getQueuedOperations_def store_getAll_def sync_loop_def sync_step_def
      processOperation_def Let_def)

text \<open>
  Why the timestamps are required to increase strictly: \<^verbatim>\<open>Date.now()\<close> counts
  milliseconds, and two operations logged in the same millisecond are replayed in the
  order of their random identifiers. Here an update is enqueued before a delete of the same
  lead, and the delete is replayed first.
\<close>

lemma same_millisecond_replay_order:
  "calls (syncQueue accepts_all
     (run_calls [QueueUpdate ''b'' 5 ''leads'' lead_1a, QueueDelete ''a'' 5 ''leads'' ''1'']
        init_state))
   = [RemoteDelete (Some (JStr ''1'')),
      RemoteUpdate (Some (JStr ''1'')) [(''client_name'', JStr ''Acme'')]]"
  by code_simp

subsection \<open>C2: a pass in which the second of three operations fails\<close>

text \<open>
  C2. Let the log, read in replay order, be the three operations \<open>A\<close>, \<open>B\<close>, \<open>C\<close>, and
  let \<open>A\<close> succeed, \<open>B\<close> fail and \<open>C\<close> succeed when each is dispatched in its turn. Then
  one pass of \<^verbatim>\<open>syncQueue\<close> leaves exactly \<open>B\<close> in the log; the remote service has
  received the request of \<open>A\<close>, then that of \<open>B\<close> once at most (none if \<open>B\<close> failed for
  its table), then that of \<open>C\<close>; the pass ends with \<open>successCount = 2\<close> and
  \<open>failCount = 1\<close>, which the toast reports as
  \<^verbatim>\<open>Successfully synced 2 changes, 1 failed\<close>; and the exposed depth is 1.
\<close>

theorem partial_failure:
  assumes "\<not> isSyncing s" and "queue_ok s"
    and "getQueuedOperations s = [A, B, C]"
    and "succeeds rem (calls s) A"
    and "\<not> succeeds rem (sent (calls s) A) B"
    and "succeeds rem (sent (sent (calls s) A) B) C"
  shows "store_getAll (queue (syncQueue rem s)) = [B]
       \<and> calls (syncQueue rem s)
           = calls s @ [call_of A] @ (if op_table B = ''leads'' then [call_of B] else [])
               @ [call_of C]
       \<and> fst (sync_pass rem (s\<lparr>isSyncing := True\<rparr>)) = \<lparr>successCount = 2, failCount = 1\<rparr>
       \<and> toasts (syncQueue rem s) = toasts s @ [sync_complete \<lparr>successCount = 2, failCount = 1\<rparr>]
       \<and> description (sync_complete \<lparr>successCount = 2, failCount = 1\<rparr>)
           = ''Successfully synced 2 changes, 1 failed''
       \<and> queueCount (syncQueue rem s) = 1"
proof -
  let ?t0 = "\<lparr>successCount = 0, failCount = 0\<rparr>"
  let ?s1 = "s\<lparr>isSyncing := True\<rparr>"
  let ?a = "sync_step rem A (?t0, ?s1)"
  let ?b = "sync_step rem B ?a"
  let ?c = "sync_step rem C ?b"
  have pass: "sync_pass rem ?s1 = ?c"
    using assms(3) by (simp add: sync_pass_def getQueuedOperations_def sync_loop_def)
  have ca: "calls (snd ?a) = sent (calls s) A"
    by (simp add: sync_step_fields)
  have cb: "calls (snd ?b) = sent (sent (calls s) A) B"
    by (simp add: sync_step_fields)
  have sa: "succeeds rem (calls (snd (?t0, ?s1))) A"
    using assms(4) by simp
  have fb: "\<not> succeeds rem (calls (snd ?a)) B"
    using assms(5) unfolding ca .
  have sc: "succeeds rem (calls (snd ?b)) C"
    using assms(6) unfolding cb .
  have tally: "fst ?c = \<lparr>successCount = 2, failCount = 1\<rparr>"
    by (simp add: sync_step_succeeds(1) [OF sc] sync_step_fails(1) [OF fb]
        sync_step_succeeds(1) [OF sa])
  have "queue (snd ?c) = store_delete (KStr (op_id C)) (store_delete (KStr (op_id A)) (queue s))"
    by (simp add: sync_step_succeeds(2) [OF sc] sync_step_fails(2) [OF fb]
        sync_step_succeeds(2) [OF sa])
  moreover have "mset (map snd (queue s)) = mset [A, B, C]"
    using arg_cong [OF assms(3), of mset]
    by (simp add: getQueuedOperations_def store_getAll_def)
  ultimately have q: "map snd (queue (snd ?c)) = [B]"
    using only_failed_remains [OF assms(2)] by simp
  have sq: "syncQueue rem s = sync_finish ?c"
    using assms(1) by (simp add: syncQueue_unfold pass)
  have tables: "op_table A = ''leads''" "op_table C = ''leads''"
    using assms(4,6) by (simp_all add: succeeds_def)
  have "calls (snd ?c) = sent (sent (sent (calls s) A) B) C"
    by (simp add: sync_step_fields)
  then have c: "calls (syncQueue rem s)
      = calls s @ [call_of A] @ (if op_table B = ''leads'' then [call_of B] else []) @ [call_of C]"
    using tables by (simp add: sq sync_finish_fields sent_def)
  have t: "toasts (syncQueue rem s) = toasts s @ [sync_complete \<lparr>successCount = 2, failCount = 1\<rparr>]"
    by (simp add: sq sync_finish_toasts tally sync_step_fields)
  have d: "description (sync_complete \<lparr>successCount = 2, failCount = 1\<rparr>)
           = ''Successfully synced 2 changes, 1 failed''"
    by code_simp
  have "queueCount (syncQueue rem s) = length (map snd (queue (snd ?c)))"
    by (simp add: sq sync_finish_count getQueueCount_def store_count_def sync_finish_fields)
  then have n: "queueCount (syncQueue rem s) = 1"
    unfolding q by simp
  have "store_getAll (queue (syncQueue rem s)) = [B]"
    using q by (simp add: sq sync_finish_fields store_getAll_def)
  with c tally t d n show ?thesis by (simp only: pass)
qed

text \<open>
  The theorem at a log of three operations and a remote service that rejects the second
  request it receives.
\<close>

theorem partial_failure_witness:
  "\<not> isSyncing three_queued \<and> queue_ok three_queued
   \<and> getQueuedOperations three_queued = [op_a, op_b, op_c]
   \<and> succeeds rejects_second (calls three_queued) op_a
   \<and> \<not> succeeds rejects_second (sent (calls three_queued) op_a) op_b
   \<and> succeeds rejects_second (sent (sent (calls three_queued) op_a) op_b) op_c
   \<and> store_getAll (queue (syncQueue rejects_second three_queued)) = [op_b]
   \<and> calls (syncQueue rejects_second three_queued) = [call_of op_a, call_of op_b, call_of op_c]
   \<and> queueCount (syncQueue rejects_second three_queued) = 1"
proof -
  have h: "\<not> isSyncing three_queued" "queue_ok three_queued"
    "getQueuedOperations three_queued = [op_a, op_b, op_c]"
    "succeeds rejects_second (calls three_queued) op_a"
    "\<not> succeeds rejects_second (sent (calls three_queued) op_a) op_b"
    "succeeds rejects_second (sent (sent (calls three_queued) op_a) op_b) op_c"
    by (simp_all add: three_queued_def init_state_def queue_ok_def getQueuedOperations_def
        store_getAll_def succeeds_def sent_def rejects_second_def op_a_def op_b_def op_c_def)
  have t: "op_table op_b = ''leads''" "calls three_queued = []"
    by (simp_all add: op_b_def three_queued_def init_state_def)
  show ?thesis
    using partial_failure [OF h] h t by simp
qed

subsection \<open>C3: the order of replay\<close>

text \<open>
  C3, as amended. Let the log satisfy the store's invariant, hold only operations on
  \<^verbatim>\<open>leads\<close>, and hold no two operations with the same \<^verbatim>\<open>timestamp\<close>. Then a pass of
  \<^verbatim>\<open>syncQueue\<close> handles the records of the log, each once, in strictly ascending order
  of \<^verbatim>\<open>timestamp\<close>, and the remote service receives one request per operation in that
  order, nothing merged, dropped or moved, whatever records the operations refer to. The
  pass is sequential. Split the order of replay into the operations \<open>xs\<close> handled so far
  and the operations \<open>ys\<close> still to come: at that point the remote service has received
  the requests of \<open>xs\<close> and no other, every operation of \<open>xs\<close> has been counted as a
  success or a failure, and an operation \<open>x\<close> of \<open>xs\<close> is still in the log exactly when
  the remote service, having received the requests of the operations \<open>us\<close> before
  \<open>x\<close>, rejected the request of \<open>x\<close>. The pass then goes on with \<open>ys\<close> from that
  state.
\<close>

theorem replay_in_timestamp_order:
  assumes "\<not> isSyncing s" and "queue_ok s"
    and "list_all (\<lambda>op. op_table op = ''leads'') (getQueuedOperations s)"
    and "distinct (map timestamp (store_getAll (queue s)))"
    and "getQueuedOperations s = xs @ ys" and "xs = us @ x # vs"
  shows "sorted_wrt (<) (map timestamp (getQueuedOperations s))
       \<and> mset (getQueuedOperations s) = mset (store_getAll (queue s))
       \<and> calls (syncQueue rem s) = calls s @ map call_of (getQueuedOperations s)
       \<and> syncQueue rem s
           = sync_finish (sync_loop rem ys (sync_loop rem xs
               (\<lparr>successCount = 0, failCount = 0\<rparr>, s\<lparr>isSyncing := True\<rparr>)))
       \<and> calls (snd (sync_loop rem xs
             (\<lparr>successCount = 0, failCount = 0\<rparr>, s\<lparr>isSyncing := True\<rparr>)))
           = calls s @ map call_of xs
       \<and> successCount (fst (sync_loop rem xs
             (\<lparr>successCount = 0, failCount = 0\<rparr>, s\<lparr>isSyncing := True\<rparr>)))
         + failCount (fst (sync_loop rem xs
             (\<lparr>successCount = 0, failCount = 0\<rparr>, s\<lparr>isSyncing := True\<rparr>)))
           = length xs
       \<and> (x \<in> set (store_getAll (queue (snd (sync_loop rem xs
             (\<lparr>successCount = 0, failCount = 0\<rparr>, s\<lparr>isSyncing := True\<rparr>)))))
            \<longleftrightarrow> rem (calls s @ map call_of us) (call_of x))"
proof -
  let ?ops = "getQueuedOperations s"
  let ?s1 = "s\<lparr>isSyncing := True\<rparr>"
  let ?t0 = "\<lparr>successCount = 0, failCount = 0\<rparr>"
  let ?mid = "sync_loop rem xs (?t0, ?s1)"
  have perm: "mset ?ops = mset (store_getAll (queue s))"
    by (simp add: getQueuedOperations_def)
  have "mset (map timestamp ?ops) = mset (map timestamp (store_getAll (queue s)))"
    by (simp add: getQueuedOperations_def)
  then have "distinct (map timestamp ?ops)"
    using assms(4) by (metis mset_eq_imp_distinct_iff)
  moreover have "sorted (map timestamp ?ops)"
    by (simp add: getQueuedOperations_def)
  ultimately have strict: "sorted_wrt (<) (map timestamp ?ops)"
    by (simp add: strict_sorted_iff)
  have ops1: "getQueuedOperations ?s1 = xs @ ys"
    using assms(5) by (simp add: getQueuedOperations_def)
  have run: "syncQueue rem s = sync_finish (sync_loop rem ys ?mid)"
    using assms(1) by (simp add: syncQueue_unfold sync_pass_def ops1 sync_loop_append)
  have leads: "list_all (\<lambda>op. op_table op = ''leads'') xs" "list_all (\<lambda>op. op_table op = ''leads'') ys"
    using assms(3) by (simp_all add: assms(5))
  have cm: "calls (snd ?mid) = calls s @ map call_of xs"
    using leads(1) by (simp add: sync_loop_calls_leads)
  have "calls (snd (sync_loop rem ys ?mid)) = calls s @ map call_of (xs @ ys)"
    using leads(2) by (simp add: sync_loop_calls_leads cm)
  then have c: "calls (syncQueue rem s) = calls s @ map call_of ?ops"
    by (simp add: run sync_finish_fields assms(5))
  have tm: "successCount (fst ?mid) + failCount (fst ?mid) = length xs"
    by (simp add: sync_loop_tally)
  have "distinct (map op_id ?ops)"
    using assms(2) by (rule replay_ids_distinct)
  then have d: "distinct (map op_id (us @ x # vs))"
    by (auto simp add: assms(5,6))
  have l: "list_all (\<lambda>op. op_table op = ''leads'') (us @ x # vs)"
    using leads(1) by (simp add: assms(6))
  have keys: "list_all (\<lambda>p. fst p = KStr (op_id (snd p))) (queue s)"
    using assms(2) by (simp add: queue_ok_def)
  have "x \<in> set ?ops"
    by (simp add: assms(5,6))
  then have "x \<in> set (map snd (queue s))"
    using mset_eq_setD [OF perm] by (simp add: store_getAll_def)
  then have "(KStr (op_id x), x) \<in> set (queue s)"
    using keyed_member [OF keys] by simp
  then have start: "(KStr (op_id x), x) \<in> set (queue (snd (?t0, ?s1)))"
    by simp
  have "queue_ok (snd (?t0, ?s1))"
    using assms(2) by (simp add: queue_ok_def)
  then have "queue_ok (snd ?mid)"
    by (rule sync_loop_queue_ok)
  then have "list_all (\<lambda>p. fst p = KStr (op_id (snd p))) (queue (snd ?mid))"
    by (simp add: queue_ok_def)
  from keyed_member [OF this]
  have "x \<in> set (store_getAll (queue (snd ?mid)))
          \<longleftrightarrow> (KStr (op_id x), x) \<in> set (queue (snd ?mid))"
    by (simp add: store_getAll_def)
  also have "\<dots> \<longleftrightarrow> rem (calls s @ map call_of us) (call_of x)"
    using sync_loop_verdict [OF l d start, of rem] by (simp add: assms(6))
  finally have v: "x \<in> set (store_getAll (queue (snd ?mid)))
          \<longleftrightarrow> rem (calls s @ map call_of us) (call_of x)" .
  show ?thesis
    by (intro conjI strict perm c run cm tm v)
qed

text \<open>
  The theorem at a log of three operations and a remote service that rejects the second
  request it receives, looked at after the second operation.
\<close>

theorem replay_in_timestamp_order_witness:
  "\<not> isSyncing three_queued \<and> queue_ok three_queued
   \<and> list_all (\<lambda>op. op_table op = ''leads'') (getQueuedOperations three_queued)
   \<and> distinct (map timestamp (store_getAll (queue three_queued)))
   \<and> getQueuedOperations three_queued = [op_a, op_b] @ [op_c]
   \<and> [op_a, op_b] = [op_a] @ op_b # []
   \<and> sorted_wrt (<) (map timestamp (getQueuedOperations three_queued))
   \<and> calls (syncQueue rejects_second three_queued) = [call_of op_a, call_of op_b, call_of op_c]
   \<and> calls (snd (sync_loop rejects_second [op_a, op_b]
         (\<lparr>successCount = 0, failCount = 0\<rparr>, three_queued\<lparr>isSyncing := True\<rparr>)))
       = [call_of op_a, call_of op_b]
   \<and> op_b \<in> set (store_getAll (queue (snd (sync_loop rejects_second [op_a, op_b]
         (\<lparr>successCount = 0, failCount = 0\<rparr>, three_queued\<lparr>isSyncing := True\<rparr>)))))
   \<and> rejects_second [call_of op_a] (call_of op_b)"
proof -
  have g: "getQueuedOperations three_queued = [op_a, op_b, op_c]"
    by (simp add: three_queued_def init_state_def getQueuedOperations_def store_getAll_def
        op_a_def op_b_def op_c_def)
  have h: "\<not> isSyncing three_queued" "queue_ok three_queued"
    "list_all (\<lambda>op. op_table op = ''leads'') (getQueuedOperations three_queued)"
    "distinct (map timestamp (store_getAll (queue three_queued)))"
    "getQueuedOperations three_queued = [op_a, op_b] @ [op_c]"
    "[op_a, op_b] = [op_a] @ op_b # []"
    by (simp_all add: g)
      (simp_all add: three_queued_def init_state_def queue_ok_def store_getAll_def
        op_a_def op_b_def op_c_def)
  have c: "calls three_queued = []" "rejects_second [call_of op_a] (call_of op_b)"
    by (simp_all add: three_queued_def init_state_def rejects_second_def)
  note r = replay_in_timestamp_order [OF h, of rejects_second]
  have r1: "sorted_wrt (<) (map timestamp (getQueuedOperations three_queued))"
    using r by (rule conjunct1)
  have r3: "calls (syncQueue rejects_second three_queued)
              = [call_of op_a, call_of op_b, call_of op_c]"
    using r [THEN conjunct2, THEN conjunct2, THEN conjunct1] by (simp add: g c(1))
  have r5: "calls (snd (sync_loop rejects_second [op_a, op_b]
         (\<lparr>successCount = 0, failCount = 0\<rparr>, three_queued\<lparr>isSyncing := True\<rparr>)))
       = [call_of op_a, call_of op_b]"
    using r [THEN conjunct2, THEN conjunct2, THEN conjunct2, THEN conjunct2, THEN conjunct1]
    by (simp add: c(1))
  have r7: "op_b \<in> set (store_getAll (queue (snd (sync_loop rejects_second [op_a, op_b]
         (\<lparr>successCount = 0, failCount = 0\<rparr>, three_queued\<lparr>isSyncing := True\<rparr>)))))"
    using r [THEN conjunct2, THEN conjunct2, THEN conjunct2, THEN conjunct2, THEN conjunct2,
        THEN conjunct2] c
    by simp
  show ?thesis
    by (intro conjI h r1 r3 r5 r7 c(2))
qed

text \<open>
  C3 as stated fails: not every queued operation is dispatched. An operation on the table
  \<^verbatim>\<open>contacts\<close> comes first in the order of replay, \<^verbatim>\<open>processOperation\<close> throws before
  it contacts the remote service, and the remote service receives the request of the second
  operation alone.
\<close>

theorem replay_skips_unsupported_table_counterexample:
  "getQueuedOperations mixed_queued = [op_x, op_b]
   \<and> op_table op_x = ''contacts''
   \<and> calls (syncQueue accepts_all mixed_queued) = [RemoteDelete (Some (JStr ''7''))]
   \<and> store_getAll (queue (syncQueue accepts_all mixed_queued)) = [op_x]"
  by (simp add: mixed_queued_def init_state_def op_x_def op_b_def getQueuedOperations_def
      store_getAll_def syncQueue_unfold sync_pass_def sync_finish_def sync_loop_def
      sync_step_def processOperation_def removeFromQueue_def store_delete_def call_of_def
      obj_get_def accepts_all_def updateQueueCount_def getQueueCount_def store_count_def
      add_toast_def Let_def)

subsection \<open>C4: the temporary identifier of an offline insert\<close>

text \<open>
  C4. \<^verbatim>\<open>queueInsert('leads', {client_name: 'Acme'})\<close> on the initial state, with
  \<^verbatim>\<open>u1\<close> and \<^verbatim>\<open>u2\<close> the two values of \<^verbatim>\<open>crypto.randomUUID()\<close> and 1000 the
  value of \<^verbatim>\<open>Date.now()\<close>. The call returns the temporary identifier \<^verbatim>\<open>temp_u1\<close>,
  caches the lead under it, raises the toast and contacts no remote service. The operation
  it logs, however, carries the caller's payload as it came: \<^verbatim>\<open>queueInsert\<close> hands
  \<^verbatim>\<open>data\<close>, not \<^verbatim>\<open>dataWithId\<close>, to \<^verbatim>\<open>addToQueue\<close>, so the payload in the log has no
  \<^verbatim>\<open>id\<close>.
\<close>

theorem queueInsert_logs_payload_without_id:
  "queueInsert ''u1'' ''u2'' 1000 ''leads'' [(''client_name'', JStr ''Acme'')] init_state =
     (Inr ''temp_u1'',
      init_state\<lparr>queue := [(KStr ''u2'', \<lparr>op_id = ''u2'', op_type = Insert, op_table = ''leads'',
                     op_data = [(''client_name'', JStr ''Acme'')], timestamp = 1000\<rparr>)],
                 leads_cache := [(KStr ''temp_u1'',
                     [(''client_name'', JStr ''Acme''), (''id'', JStr ''temp_u1'')])],
                 queueCount := 1,
                 toasts := [saved_offline]\<rparr>)
   \<and> map (\<lambda>op. obj_get (op_data op) ''id'')
        (getQueuedOperations (snd (queueInsert ''u1'' ''u2'' 1000 ''leads''
           [(''client_name'', JStr ''Acme'')] init_state))) = [None]"
  by (simp add: queueInsert_def addToQueue_def updateCachedLead_def store_add_def store_has_def
      store_put_def store_delete_def lead_key_def obj_get_def updateQueueCount_def
      getQueueCount_def store_count_def add_toast_def init_state_def getQueuedOperations_def
      store_getAll_def Let_def)

subsection \<open>C5: a call of syncQueue while a pass is running\<close>

text \<open>
  C5. The claim: a call of \<^verbatim>\<open>syncQueue\<close> made while a pass is in flight returns at once,
  starts no second pass and sends nothing to the remote service. The code does not keep it.
  The flag \<^verbatim>\<open>isSyncing\<close> is a state cell of each mounted hook, so the guard of one hook
  does not see the pass of another. Two hooks are mounted over a log of two operations.
  The first starts a pass and its flag is set; the second then calls its own
  \<^verbatim>\<open>syncQueue\<close>, and a second pass starts on the same snapshot. With the two passes
  taking turns, the remote service receives the request of every operation twice.
\<close>

theorem second_pass_while_first_in_flight:
  "inst_isSyncing (instances (run_events accepts_all [StartSync 0] two_instances) ! 0)
   \<and> inst_pass (instances (run_events accepts_all [StartSync 0, StartSync 1] two_instances) ! 1)
       = Some (\<lparr>successCount = 0, failCount = 0\<rparr>, [op_a, op_b])
   \<and> app_calls (run_events accepts_all
        [StartSync 0, StartSync 1, StepSync 0, StepSync 1, StepSync 0, StepSync 1,
         FinishSync 0, FinishSync 1] two_instances)
       = [call_of op_a, call_of op_a, call_of op_b, call_of op_b]
   \<and> app_queue (run_events accepts_all
        [StartSync 0, StartSync 1, StepSync 0, StepSync 1, StepSync 0, StepSync 1,
         FinishSync 0, FinishSync 1] two_instances) = []"
  by code_simp

text \<open>
  Within one hook the guard is passed in the same way by a call through the function of a
  render made before the flag was set: it captured \<open>False\<close>, and on a state whose flag
  is set it runs a whole pass.
\<close>

lemma earlier_render_passes_guard:
  "isSyncing busy_state
   \<and> calls (syncQueue_render False accepts_all busy_state) = [call_of op_a, call_of op_b]"
  by code_simp

text \<open>
  What the guard does where it is reached, that is for a call through the latest render of
  the hook whose own pass is running: the call changes nothing, and a pass interrupted by
  such a call after the operations \<open>xs\<close> ends as it would have without it.
\<close>

lemma guarded_call_no_op:
  assumes "\<not> isSyncing s" and "getQueuedOperations s = xs @ ys"
  shows "(isSyncing u \<longrightarrow> syncQueue rem' u = u)
       \<and> isSyncing (snd (sync_loop rem xs
             (\<lparr>successCount = 0, failCount = 0\<rparr>, s\<lparr>isSyncing := True\<rparr>)))
       \<and> syncQueue rem' (snd (sync_loop rem xs
             (\<lparr>successCount = 0, failCount = 0\<rparr>, s\<lparr>isSyncing := True\<rparr>)))
           = snd (sync_loop rem xs (\<lparr>successCount = 0, failCount = 0\<rparr>, s\<lparr>isSyncing := True\<rparr>))
       \<and> sync_finish (sync_loop rem ys
           (fst (sync_loop rem xs (\<lparr>successCount = 0, failCount = 0\<rparr>, s\<lparr>isSyncing := True\<rparr>)),
            syncQueue rem' (snd (sync_loop rem xs
              (\<lparr>successCount = 0, failCount = 0\<rparr>, s\<lparr>isSyncing := True\<rparr>)))))
         = syncQueue rem s"
proof -
  let ?mid = "sync_loop rem xs (\<lparr>successCount = 0, failCount = 0\<rparr>, s\<lparr>isSyncing := True\<rparr>)"
  have guard: "isSyncing u \<longrightarrow> syncQueue rem' u = u"
    by (simp add: syncQueue_unfold)
  have busy: "isSyncing (snd ?mid)"
    by (simp add: sync_loop_fields)
  then have same: "syncQueue rem' (snd ?mid) = snd ?mid"
    by (simp add: syncQueue_unfold)
  have "getQueuedOperations (s\<lparr>isSyncing := True\<rparr>) = xs @ ys"
    using assms(2) by (simp add: getQueuedOperations_def)
  then have "sync_pass rem (s\<lparr>isSyncing := True\<rparr>) = sync_loop rem ys ?mid"
    by (simp add: sync_pass_def sync_loop_append)
  then have "sync_finish (sync_loop rem ys (fst ?mid, syncQueue rem' (snd ?mid))) = syncQueue rem s"
    using assms(1) same by (simp add: syncQueue_unfold)
  with guard busy same show ?thesis by simp
qed

text \<open>
  Even there the call gives no indication that a pass is running: \<^verbatim>\<open>syncQueue\<close>
  resolves to no value on any path, and the guarded call adds neither a toast nor a console
  line.
\<close>

lemma guarded_call_silent:
  "isSyncing busy_state
   \<and> \<not> (toasts (syncQueue accepts_all busy_state) \<noteq> toasts busy_state
        \<or> console (syncQueue accepts_all busy_state) \<noteq> console busy_state)"
  by (simp add: syncQueue_unfold busy_state_def)

subsection \<open>C6: the lead cache\<close>

text \<open>
  C6, as amended. On every cache that satisfies the store's invariant:
  \<^verbatim>\<open>updateCachedLead(e)\<close> for a lead \<open>e\<close> that carries a valid \<^verbatim>\<open>id\<close> succeeds and
  \<^verbatim>\<open>getCachedLeads\<close> then returns a list containing \<open>e\<close>; after
  \<^verbatim>\<open>deleteCachedLead(i)\<close>, \<^verbatim>\<open>getCachedLeads\<close> returns no lead whose \<^verbatim>\<open>id\<close> is
  \<open>i\<close>; and \<^verbatim>\<open>cacheLeads([x, y])\<close> for two leads with valid and different \<^verbatim>\<open>id\<close>s
  succeeds and \<^verbatim>\<open>getCachedLeads\<close> then returns exactly \<open>x\<close> and \<open>y\<close>, whatever the
  cache held before.
\<close>

theorem cache_consistency:
  assumes "cache_ok s"
  shows "(lead_key e \<noteq> None \<longrightarrow>
            fst (updateCachedLead e s) = Inr ()
            \<and> e \<in> set (getCachedLeads (snd (updateCachedLead e s))))
       \<and> list_all (\<lambda>l. obj_get l ''id'' \<noteq> Some (JStr i)) (getCachedLeads (deleteCachedLead i s))
       \<and> (lead_key x \<noteq> None \<and> lead_key y \<noteq> None \<and> lead_key x \<noteq> lead_key y \<longrightarrow>
            fst (cacheLeads [x, y] s) = Inr ()
            \<and> set (getCachedLeads (snd (cacheLeads [x, y] s))) = {x, y}
            \<and> length (getCachedLeads (snd (cacheLeads [x, y] s))) = 2)"
proof (intro conjI impI)
  assume "lead_key e \<noteq> None"
  then obtain k where k: "lead_key e = Some k" by blast
  show "fst (updateCachedLead e s) = Inr ()"
    by (simp add: updateCachedLead_def k)
  show "e \<in> set (getCachedLeads (snd (updateCachedLead e s)))"
    by (simp add: updateCachedLead_def k getCachedLeads_def store_getAll_def store_put_def
        set_store_insert)
next
  have "lead_key (snd p) \<noteq> Some (KStr i)"
    if "p \<in> set (store_delete (KStr i) (leads_cache s))" for p
    using that assms by (auto simp add: cache_ok_def set_store_delete list_all_iff)
  then show "list_all (\<lambda>l. obj_get l ''id'' \<noteq> Some (JStr i))
               (getCachedLeads (deleteCachedLead i s))"
    by (auto simp add: getCachedLeads_def deleteCachedLead_def store_getAll_def list_all_iff
        lead_key_id)
next
  assume a: "lead_key x \<noteq> None \<and> lead_key y \<noteq> None \<and> lead_key x \<noteq> lead_key y"
  then obtain kx ky where k: "lead_key x = Some kx" "lead_key y = Some ky" "kx \<noteq> ky" by auto
  have c: "cacheLeads [x, y] s = (Inr (), s\<lparr>leads_cache := store_insert ky y [(kx, x)]\<rparr>)"
    using k by (simp add: cacheLeads_def store_add_def store_has_def)
  show "fst (cacheLeads [x, y] s) = Inr ()" by (simp add: c)
  show "set (getCachedLeads (snd (cacheLeads [x, y] s))) = {x, y}"
    by (auto simp add: c getCachedLeads_def store_getAll_def set_store_insert)
  show "length (getCachedLeads (snd (cacheLeads [x, y] s))) = 2"
    by (simp add: c getCachedLeads_def store_getAll_def length_store_insert)
qed

text \<open>The theorem on a cache that holds one lead, with the identifier 9.\<close>

theorem cache_consistency_witness:
  "cache_ok cached_9
   \<and> lead_key lead_1a \<noteq> None \<and> lead_key lead_2 \<noteq> None \<and> lead_key lead_1a \<noteq> lead_key lead_2
   \<and> lead_1a \<in> set (getCachedLeads (snd (updateCachedLead lead_1a cached_9)))
   \<and> list_all (\<lambda>l. obj_get l ''id'' \<noteq> Some (JStr ''9''))
        (getCachedLeads (deleteCachedLead ''9'' cached_9))
   \<and> set (getCachedLeads (snd (cacheLeads [lead_1a, lead_2] cached_9))) = {lead_1a, lead_2}"
proof -
  have ok: "cache_ok cached_9"
    by (simp add: cache_ok_def cached_9_def init_state_def lead_key_def obj_get_def lead_9_def)
  have k: "lead_key lead_1a \<noteq> None \<and> lead_key lead_2 \<noteq> None
           \<and> lead_key lead_1a \<noteq> lead_key lead_2"
    by (simp add: lead_key_def obj_get_def lead_1a_def lead_2_def)
  show ?thesis
    using cache_consistency [OF ok, of lead_1a "''9''" lead_1a lead_2] k ok by simp
qed

text \<open>
  C6 as stated fails for \<^verbatim>\<open>cacheLeads\<close>: the leads are stored with \<^verbatim>\<open>add\<close>, so two
  leads with the same \<^verbatim>\<open>id\<close> make the second request fail, the transaction aborts, and
  the cache still holds what it held before, not the two leads.
\<close>

theorem replaceAll_same_id_counterexample:
  "fst (cacheLeads [lead_1a, lead_1b] cached_9) = Inl TransactionError
   \<and> getCachedLeads (snd (cacheLeads [lead_1a, lead_1b] cached_9)) = [lead_9]
   \<and> set (getCachedLeads (snd (cacheLeads [lead_1a, lead_1b] cached_9))) \<noteq> {lead_1a, lead_1b}"
  by (simp add: cacheLeads_def lead_key_def obj_get_def lead_1a_def lead_1b_def lead_9_def
      store_add_def store_has_def cached_9_def init_state_def getCachedLeads_def store_getAll_def)

subsection \<open>C7: the exposed queue depth\<close>

text \<open>
  C7. The claim: the depth the program shows always equals the number of records in the
  log. The code does not keep it. \<^verbatim>\<open>queueCount\<close> is a state cell of each mounted hook,
  and \<^verbatim>\<open>updateQueueCount\<close> after an enqueue sets the cell of the hook that enqueued. Two
  hooks are mounted over an empty log, number 0 the one whose depth is shown
  (\<^verbatim>\<open>SyncIndicator\<close>), number 1 the one that enqueues (\<^verbatim>\<open>LeadFormDialog\<close>). After
  one \<^verbatim>\<open>queueInsert\<close> by hook 1 the log holds one record, the depth of hook 1 is 1 and
  the depth shown is still 0.
\<close>

theorem depth_stale_in_other_instance:
  "map inst_queueCount (instances two_instances_empty) = [0, 0]
   \<and> store_count (app_queue (run_events accepts_all
        [Enqueue 1 (QueueInsert ''t1'' ''u1'' 1000 ''leads'' lead_noid)] two_instances_empty)) = 1
   \<and> map inst_queueCount (instances (run_events accepts_all
        [Enqueue 1 (QueueInsert ''t1'' ''u1'' 1000 ''leads'' lead_noid)] two_instances_empty))
       = [0, 1]"
  by code_simp

text \<open>
  What \<^verbatim>\<open>updateQueueCount\<close> does achieve: in the hook that made the call, the depth
  equals the number of records in the log at the end of every pass of \<^verbatim>\<open>syncQueue\<close> and
  at the end of every enqueue that is not rejected.
\<close>

lemma depth_recomputed_in_calling_hook:
  "(\<not> isSyncing s \<longrightarrow>
      queueCount (syncQueue rem s) = getQueueCount (syncQueue rem s))
   \<and> (\<not> isl (fst (queueInsert uuid1 uuid now tbl d s)) \<longrightarrow>
      queueCount (snd (queueInsert uuid1 uuid now tbl d s))
        = getQueueCount (snd (queueInsert uuid1 uuid now tbl d s)))
   \<and> (\<not> isl (fst (queueUpdate uuid now tbl d s)) \<longrightarrow>
      queueCount (snd (queueUpdate uuid now tbl d s))
        = getQueueCount (snd (queueUpdate uuid now tbl d s)))
   \<and> (\<not> isl (fst (queueDelete uuid now tbl i s)) \<longrightarrow>
      queueCount (snd (queueDelete uuid now tbl i s))
        = getQueueCount (snd (queueDelete uuid now tbl i s)))
   \<and> getQueueCount s = length (queue s)"
  by (auto simp add: syncQueue_unfold sync_finish_count queueInsert_def queueUpdate_def
      queueDelete_def addToQueue_def updateCachedLead_def updateQueueCount_def add_toast_def
      getQueueCount_def store_count_def deleteCachedLead_def Let_def
      split: option.splits)

text \<open>
  Within a pass the depth lags even in the hook that runs it: it is set once after the
  loop, not after each removal. With two operations in the log and the depth at 2, the
  first iteration removes a record and the depth still reads 2 over a log of one.
\<close>

lemma depth_stale_within_pass:
  "getQueuedOperations (two_queued\<lparr>isSyncing := True\<rparr>) = [op_a, op_b]
   \<and> queueCount two_queued = getQueueCount two_queued
   \<and> queueCount (snd (sync_step accepts_all op_a
        (\<lparr>successCount = 0, failCount = 0\<rparr>, two_queued\<lparr>isSyncing := True\<rparr>))) = 2
   \<and> getQueueCount (snd (sync_step accepts_all op_a
        (\<lparr>successCount = 0, failCount = 0\<rparr>, two_queued\<lparr>isSyncing := True\<rparr>))) = 1"
  by (simp add: getQueuedOperations_def store_getAll_def two_queued_def init_state_def
      op_a_def op_b_def sync_step_def processOperation_def removeFromQueue_def
      store_delete_def getQueueCount_def store_count_def accepts_all_def Let_def)

subsection \<open>C8: a drain of an empty log\<close>

text \<open>
  C8, as amended. When the log is empty, \<^verbatim>\<open>syncQueue\<close> sends nothing to the remote
  service and leaves the log and the cache as they are. It returns no value and raises no
  toast and no console line: a call stopped by the guard changes nothing at all, and a call
  that runs its pass changes nothing but the depth of its hook, which it sets to 0. The two
  counters of that pass end at 0; nothing returns or reports them.
\<close>

theorem drain_empty_queue:
  assumes "queue s = []"
  shows "(isSyncing s \<longrightarrow> syncQueue rem s = s)
       \<and> (\<not> isSyncing s \<longrightarrow> syncQueue rem s = s\<lparr>queueCount := 0\<rparr>)
       \<and> calls (syncQueue rem s) = calls s
       \<and> queue (syncQueue rem s) = []
       \<and> leads_cache (syncQueue rem s) = leads_cache s
       \<and> toasts (syncQueue rem s) = toasts s
       \<and> console (syncQueue rem s) = console s
       \<and> (\<not> isSyncing s \<longrightarrow>
            sync_pass rem (s\<lparr>isSyncing := True\<rparr>) =
              (\<lparr>successCount = 0, failCount = 0\<rparr>, s\<lparr>isSyncing := True\<rparr>))"
  using assms
  by (simp add: syncQueue_unfold sync_pass_def sync_finish_def getQueuedOperations_def
      store_getAll_def sync_loop_Nil updateQueueCount_def getQueueCount_def store_count_def
      add_toast_def Let_def)

text \<open>
  The theorem on a state whose log is empty, whose cache holds one lead and whose depth
  reads 3.
\<close>

theorem drain_empty_queue_witness:
  "queue (cached_9\<lparr>queueCount := 3\<rparr>) = [] \<and> \<not> isSyncing (cached_9\<lparr>queueCount := 3\<rparr>)
   \<and> syncQueue rejects_second (cached_9\<lparr>queueCount := 3\<rparr>) = cached_9
   \<and> calls (syncQueue rejects_second (cached_9\<lparr>queueCount := 3\<rparr>)) = []
   \<and> getCachedLeads (syncQueue rejects_second (cached_9\<lparr>queueCount := 3\<rparr>)) = [lead_9]"
proof -
  have h: "queue (cached_9\<lparr>queueCount := 3\<rparr>) = []" "\<not> isSyncing (cached_9\<lparr>queueCount := 3\<rparr>)"
    by (simp_all add: cached_9_def init_state_def)
  have c: "cached_9\<lparr>queueCount := 3, queueCount := 0\<rparr> = cached_9"
    "calls cached_9 = []" "getCachedLeads cached_9 = [lead_9]"
    by (simp_all add: cached_9_def init_state_def getCachedLeads_def store_getAll_def)
  note r = drain_empty_queue [OF h(1), of rejects_second]
  have e: "syncQueue rejects_second (cached_9\<lparr>queueCount := 3\<rparr>) = cached_9"
    using r [THEN conjunct2, THEN conjunct1] h(2) c(1) by simp
  show ?thesis
    using h e c by simp
qed

text \<open>
  C8 as stated fails in one respect: no result is returned or reported. On the initial
  state the call leaves the whole state as it was, toasts and console included, and the
  promise of \<^verbatim>\<open>syncQueue\<close> carries no value.
\<close>

theorem drain_empty_reports_nothing_counterexample:
  "queue init_state = []
   \<and> syncQueue accepts_all init_state = init_state
   \<and> toasts (syncQueue accepts_all init_state) = []
   \<and> console (syncQueue accepts_all init_state) = []"
  by (simp add: syncQueue_unfold sync_pass_def sync_finish_def getQueuedOperations_def
      store_getAll_def sync_loop_def updateQueueCount_def getQueueCount_def store_count_def
      add_toast_def init_state_def Let_def)

subsection \<open>C9: cacheLeads is one transaction of add requests\<close>

text \<open>
  C9, as amended. \<^verbatim>\<open>cacheLeads\<close> places the \<^verbatim>\<open>clear\<close> and one \<^verbatim>\<open>add\<close> per lead on
  one transaction. When every lead of the list carries a valid \<^verbatim>\<open>id\<close>: if two leads of
  the list share an \<^verbatim>\<open>id\<close>, an insertion fails, the promise is rejected and the whole
  state, the cache included, is exactly as before the call; otherwise the call succeeds and
  the cache holds exactly the leads of the list. So for such a list the cache is never left
  partly cleared or partly filled.
\<close>

theorem replaceAll_all_or_nothing:
  assumes "list_all (\<lambda>l. lead_key l \<noteq> None) leads"
  shows "(distinct (map lead_key leads) \<longrightarrow>
            fst (cacheLeads leads s) = Inr ()
            \<and> mset (getCachedLeads (snd (cacheLeads leads s))) = mset leads)
       \<and> (\<not> distinct (map lead_key leads) \<longrightarrow>
            cacheLeads leads s = (Inl TransactionError, s))"
proof -
  have tw: "takeWhile (\<lambda>lead. lead_key lead \<noteq> None) leads = leads"
    using assms by (simp add: takeWhile_eq_all_conv list_all_iff)
  show ?thesis
  proof (intro conjI impI)
    assume d: "distinct (map lead_key leads)"
    from run_adds_distinct [OF assms d, of "[]"]
    obtain st' where st': "run_adds leads [] = Some st'" "mset (map snd st') = mset leads"
      by (auto simp add: list_all_iff)
    show "fst (cacheLeads leads s) = Inr ()"
      unfolding cacheLeads_def tw by (simp add: st' Let_def)
    show "mset (getCachedLeads (snd (cacheLeads leads s))) = mset leads"
      unfolding cacheLeads_def tw using st'(2)
      by (simp add: st'(1) Let_def getCachedLeads_def store_getAll_def)
  next
    assume "\<not> distinct (map lead_key leads)"
    with run_adds_clash [OF assms, of "[]"] have "run_adds leads [] = None" by simp
    then show "cacheLeads leads s = (Inl TransactionError, s)"
      unfolding cacheLeads_def tw by (simp add: Let_def)
  qed
qed

text \<open>
  The theorem on a cache that holds one lead: at a list with a repeated identifier and at a
  list without.
\<close>

theorem replaceAll_all_or_nothing_witness:
  "list_all (\<lambda>l. lead_key l \<noteq> None) [lead_1a, lead_1b]
   \<and> \<not> distinct (map lead_key [lead_1a, lead_1b])
   \<and> cacheLeads [lead_1a, lead_1b] cached_9 = (Inl TransactionError, cached_9)
   \<and> list_all (\<lambda>l. lead_key l \<noteq> None) [lead_1a, lead_2]
   \<and> distinct (map lead_key [lead_1a, lead_2])
   \<and> fst (cacheLeads [lead_1a, lead_2] cached_9) = Inr ()
   \<and> mset (getCachedLeads (snd (cacheLeads [lead_1a, lead_2] cached_9))) = mset [lead_1a, lead_2]"
proof -
  have v1: "list_all (\<lambda>l. lead_key l \<noteq> None) [lead_1a, lead_1b]"
    by (simp add: lead_key_def obj_get_def lead_1a_def lead_1b_def)
  have v2: "list_all (\<lambda>l. lead_key l \<noteq> None) [lead_1a, lead_2]"
    by (simp add: lead_key_def obj_get_def lead_1a_def lead_2_def)
  have d1: "\<not> distinct (map lead_key [lead_1a, lead_1b])"
    by (simp add: lead_key_def obj_get_def lead_1a_def lead_1b_def)
  have d2: "distinct (map lead_key [lead_1a, lead_2])"
    by (simp add: lead_key_def obj_get_def lead_1a_def lead_2_def)
  show ?thesis
    using replaceAll_all_or_nothing [OF v1, of cached_9]
      replaceAll_all_or_nothing [OF v2, of cached_9] v1 v2 d1 d2
    by simp
qed

text \<open>
  C9 as stated fails for an insertion that fails because the lead has no valid \<^verbatim>\<open>id\<close>.
  \<^verbatim>\<open>store.add\<close> then throws inside the executor: the promise is rejected, but the
  \<^verbatim>\<open>clear\<close> and the insertions placed before it are committed. The cache held the lead
  9; after the rejected call it holds the lead 1 alone.
\<close>

theorem replaceAll_partial_counterexample:
  "fst (cacheLeads [lead_1a, lead_noid] cached_9) = Inl DataError
   \<and> getCachedLeads cached_9 = [lead_9]
   \<and> getCachedLeads (snd (cacheLeads [lead_1a, lead_noid] cached_9)) = [lead_1a]"
  by (simp add: cacheLeads_def lead_key_def obj_get_def lead_1a_def lead_noid_def lead_9_def
      store_add_def store_has_def cached_9_def init_state_def getCachedLeads_def store_getAll_def)

subsection \<open>C10: a failed log append\<close>

text \<open>
  C10. In \<^verbatim>\<open>queueInsert\<close>, \<^verbatim>\<open>queueUpdate\<close> and \<^verbatim>\<open>queueDelete\<close> the call of
  \<^verbatim>\<open>addToQueue\<close> is awaited first. Whenever it fails, the enqueue function is rejected
  with the same error and leaves the state as it found it: the cache has seen neither an
  upsert nor an eviction, and the log, the depth and the toasts are unchanged as well.
\<close>

theorem log_append_failure_propagates:
  "(fst (addToQueue uuid now Insert tbl d s) = Inl e \<longrightarrow>
      queueInsert uuid1 uuid now tbl d s = (Inl e, s)
      \<and> leads_cache (snd (queueInsert uuid1 uuid now tbl d s)) = leads_cache s)
   \<and> (fst (addToQueue uuid now Update tbl d s) = Inl e \<longrightarrow>
      queueUpdate uuid now tbl d s = (Inl e, s)
      \<and> leads_cache (snd (queueUpdate uuid now tbl d s)) = leads_cache s)
   \<and> (fst (addToQueue uuid now Delete tbl [(''id'', JStr i)] s) = Inl e \<longrightarrow>
      queueDelete uuid now tbl i s = (Inl e, s)
      \<and> leads_cache (snd (queueDelete uuid now tbl i s)) = leads_cache s)"
  by (auto simp add: queueInsert_def queueUpdate_def queueDelete_def addToQueue_def Let_def
      split: option.splits)

text \<open>
  The theorem on a log that already holds a record with the identifier \<^verbatim>\<open>u1\<close>: an
  append under that identifier fails with \<^verbatim>\<open>ConstraintError\<close>.
\<close>

theorem log_append_failure_propagates_witness:
  "fst (addToQueue ''u1'' 3000 Insert ''leads'' lead_1a two_queued) = Inl ConstraintError
   \<and> fst (addToQueue ''u1'' 3000 Update ''leads'' lead_1a two_queued) = Inl ConstraintError
   \<and> fst (addToQueue ''u1'' 3000 Delete ''leads'' [(''id'', JStr ''1'')] two_queued)
       = Inl ConstraintError
   \<and> queueInsert ''t1'' ''u1'' 3000 ''leads'' lead_1a two_queued = (Inl ConstraintError, two_queued)
   \<and> queueUpdate ''u1'' 3000 ''leads'' lead_1a two_queued = (Inl ConstraintError, two_queued)
   \<and> queueDelete ''u1'' 3000 ''leads'' ''1'' two_queued = (Inl ConstraintError, two_queued)"
proof -
  have h: "fst (addToQueue ''u1'' 3000 Insert ''leads'' lead_1a two_queued) = Inl ConstraintError"
    "fst (addToQueue ''u1'' 3000 Update ''leads'' lead_1a two_queued) = Inl ConstraintError"
    "fst (addToQueue ''u1'' 3000 Delete ''leads'' [(''id'', JStr ''1'')] two_queued)
       = Inl ConstraintError"
    by (simp_all add: addToQueue_def store_add_def store_has_def two_queued_def init_state_def)
  show ?thesis
    using log_append_failure_propagates [of "''u1''" 3000 "''leads''" lead_1a two_queued
        ConstraintError "''t1''" "''1''"] h
    by simp
qed

end
